theory Spec2Isabelle
  imports Main "HOL-Library.Word" "HOL-Library.Sublist" "HOL-Library.AList"
begin

section \<open>The JavaScript runtime: characters, strings, regular expressions\<close>

text \<open>
  The extractor (\<^verbatim>\<open>src/export-logs.js\<close>) works on byte buffers and on strings. A buffer
  is a list of bytes. A string is a list of code units; every string the extractor builds
  from a buffer consists of the code units 9, 10, 13 and 32 to 126, so code units are
  modelled by \<^typ>\<open>char\<close>. Case mapping is the ASCII one: the code units above 127, which
  only a \<^verbatim>\<open>\u\<close> escape of a JSON fragment can produce, are left unchanged by it.
\<close>

type_synonym byte = "8 word"

definition fromCharCode :: "byte \<Rightarrow> char" where
  "fromCharCode b = char_of (unat b)"

definition charCode :: "char \<Rightarrow> nat" where
  "charCode c = of_char c"

text \<open>The character classes of the regular expressions: \<^verbatim>\<open>\d\<close>, \<^verbatim>\<open>[a-zA-Z]\<close>,
  \<^verbatim>\<open>[a-zA-Z0-9]\<close>, \<^verbatim>\<open>\w\<close>, \<^verbatim>\<open>\s\<close> and the line terminators that \<^verbatim>\<open>.\<close> excludes.\<close>

definition isDigit :: "char \<Rightarrow> bool" where
  "isDigit c = (48 \<le> charCode c \<and> charCode c \<le> 57)"

definition isUpper :: "char \<Rightarrow> bool" where
  "isUpper c = (65 \<le> charCode c \<and> charCode c \<le> 90)"

definition isLower :: "char \<Rightarrow> bool" where
  "isLower c = (97 \<le> charCode c \<and> charCode c \<le> 122)"

definition isAlpha :: "char \<Rightarrow> bool" where
  "isAlpha c = (isLower c \<or> isUpper c)"

definition isAlnum :: "char \<Rightarrow> bool" where
  "isAlnum c = (isAlpha c \<or> isDigit c)"

definition isWordChar :: "char \<Rightarrow> bool" where
  "isWordChar c = (isAlnum c \<or> c = CHR ''_'')"

definition isSpace :: "char \<Rightarrow> bool" where
  "isSpace c = (charCode c \<in> {9, 10, 11, 12, 13, 32, 160})"

definition isLineTerminator :: "char \<Rightarrow> bool" where
  "isLineTerminator c = (charCode c = 10 \<or> charCode c = 13)"

definition toLowerChar :: "char \<Rightarrow> char" where
  "toLowerChar c = (if isUpper c then char_of (charCode c + 32) else c)"

definition toUpperChar :: "char \<Rightarrow> char" where
  "toUpperChar c = (if isLower c then char_of (charCode c - 32) else c)"

definition toLowerCase :: "string \<Rightarrow> string" where
  "toLowerCase s = map toLowerChar s"

definition toUpperCase :: "string \<Rightarrow> string" where
  "toUpperCase s = map toUpperChar s"

text \<open>\<^verbatim>\<open>s.includes(t)\<close>, \<^verbatim>\<open>s.startsWith(t)\<close>, \<^verbatim>\<open>s.endsWith(t)\<close>, \<^verbatim>\<open>s.trim()\<close>,
  \<^verbatim>\<open>xs.join(sep)\<close>.\<close>

fun includesStr :: "string \<Rightarrow> string \<Rightarrow> bool" where
  "includesStr [] t = (t = [])"
| "includesStr (c # cs) t = (prefix t (c # cs) \<or> includesStr cs t)"

definition startsWith :: "string \<Rightarrow> string \<Rightarrow> bool" where
  "startsWith s t = prefix t s"

definition endsWith :: "string \<Rightarrow> string \<Rightarrow> bool" where
  "endsWith s t = suffix t s"

definition trim :: "string \<Rightarrow> string" where
  "trim s = rev (dropWhile isSpace (rev (dropWhile isSpace s)))"

fun join :: "string list \<Rightarrow> string \<Rightarrow> string" where
  "join [] sep = []"
| "join [x] sep = x"
| "join (x # y # ys) sep = x @ sep @ join (y # ys) sep"

subsection \<open>Regular expressions\<close>

text \<open>
  A regular expression is modelled by what its backtracking matcher does at one position
  of the input: given the character before the position (\<open>None\<close> at the start of the input,
  which is what \<^verbatim>\<open>^\<close> and \<^verbatim>\<open>\b\<close> look at) and the rest of the input from the position on,
  it returns the length of the match found first, or \<open>None\<close> when there is no match there.
  The functions below are the operations of the runtime on such a matcher: the search for
  the leftmost match, \<^verbatim>\<open>re.test(s)\<close>, \<^verbatim>\<open>s.match(re)\<close> with and without the flag \<^verbatim>\<open>g\<close>,
  and \<^verbatim>\<open>s.replace(re, f)\<close> with and without it.
\<close>

type_synonym regex = "char option \<Rightarrow> string \<Rightarrow> nat option"

fun re_search :: "regex \<Rightarrow> char option \<Rightarrow> string \<Rightarrow> (nat \<times> nat) option" where
  "re_search m prev [] = (case m prev [] of Some n \<Rightarrow> Some (0, n) | None \<Rightarrow> None)"
| "re_search m prev (c # cs) =
     (case m prev (c # cs) of
        Some n \<Rightarrow> Some (0, n)
      | None \<Rightarrow> (case re_search m (Some c) cs of
                   Some (i, n) \<Rightarrow> Some (Suc i, n)
                 | None \<Rightarrow> None))"

definition re_test :: "regex \<Rightarrow> string \<Rightarrow> bool" where
  "re_test m s = (re_search m None s \<noteq> None)"

definition re_match :: "regex \<Rightarrow> string \<Rightarrow> string option" where
  "re_match m s =
     (case re_search m None s of
        None \<Rightarrow> None
      | Some (i, n) \<Rightarrow> Some (take n (drop i s)))"

definition re_replace :: "regex \<Rightarrow> (string \<Rightarrow> string) \<Rightarrow> string \<Rightarrow> string" where
  "re_replace m f s =
     (case re_search m None s of
        None \<Rightarrow> s
      | Some (i, n) \<Rightarrow> take i s @ f (take n (drop i s)) @ drop (i + n) s)"

fun re_replace_from :: "regex \<Rightarrow> (string \<Rightarrow> string) \<Rightarrow> char option \<Rightarrow> string \<Rightarrow> string" where
  "re_replace_from m f prev [] = (case m prev [] of Some n \<Rightarrow> f [] | None \<Rightarrow> [])"
| "re_replace_from m f prev (c # cs) =
     (case m prev (c # cs) of
        None \<Rightarrow> c # re_replace_from m f (Some c) cs
      | Some 0 \<Rightarrow> f [] @ c # re_replace_from m f (Some c) cs
      | Some (Suc n) \<Rightarrow>
          f (c # take n cs) @ re_replace_from m f (Some (last (c # take n cs))) (drop n cs))"

definition re_replace_all :: "regex \<Rightarrow> (string \<Rightarrow> string) \<Rightarrow> string \<Rightarrow> string" where
  "re_replace_all m f s = re_replace_from m f None s"

fun re_matches_from :: "regex \<Rightarrow> char option \<Rightarrow> string \<Rightarrow> string list" where
  "re_matches_from m prev [] = (case m prev [] of Some n \<Rightarrow> [[]] | None \<Rightarrow> [])"
| "re_matches_from m prev (c # cs) =
     (case m prev (c # cs) of
        None \<Rightarrow> re_matches_from m (Some c) cs
      | Some 0 \<Rightarrow> [] # re_matches_from m (Some c) cs
      | Some (Suc n) \<Rightarrow>
          (c # take n cs) # re_matches_from m (Some (last (c # take n cs))) (drop n cs))"

definition re_match_all :: "regex \<Rightarrow> string \<Rightarrow> string list" where
  "re_match_all m s = re_matches_from m None s"

text \<open>The shapes of expression the extractor uses. \<open>C\<close> stands for a character class.\<close>

definition re_class :: "(char \<Rightarrow> bool) \<Rightarrow> regex" where
  \<comment> \<open>\<^verbatim>\<open>C\<close>: one character of the class\<close>
  "re_class P prev s = (case s of [] \<Rightarrow> None | c # cs \<Rightarrow> if P c then Some 1 else None)"

definition re_plus :: "(char \<Rightarrow> bool) \<Rightarrow> regex" where
  \<comment> \<open>\<^verbatim>\<open>C+\<close>: the longest non-empty run of the class\<close>
  "re_plus P prev s = (case takeWhile P s of [] \<Rightarrow> None | c # cs \<Rightarrow> Some (length (c # cs)))"

definition re_at_least :: "nat \<Rightarrow> (char \<Rightarrow> bool) \<Rightarrow> regex" where
  \<comment> \<open>\<^verbatim>\<open>C{k,}\<close>: the longest run of the class, of \<open>k\<close> characters or more\<close>
  "re_at_least k P prev s =
     (if k \<le> length (takeWhile P s) then Some (length (takeWhile P s)) else None)"

definition re_start_star :: "(char \<Rightarrow> bool) \<Rightarrow> regex" where
  \<comment> \<open>\<^verbatim>\<open>^C*\<close>: at the start of the input, the longest run of the class, maybe empty\<close>
  "re_start_star P prev s = (if prev = None then Some (length (takeWhile P s)) else None)"

definition re_star_end :: "(char \<Rightarrow> bool) \<Rightarrow> regex" where
  \<comment> \<open>\<^verbatim>\<open>C*$\<close>: a run of the class that reaches the end of the input\<close>
  "re_star_end P prev s = (if list_all P s then Some (length s) else None)"

definition re_start_plus_star :: "(char \<Rightarrow> bool) \<Rightarrow> (char \<Rightarrow> bool) \<Rightarrow> regex" where
  \<comment> \<open>\<^verbatim>\<open>^C+D*\<close>: at the start, a non-empty run of \<open>C\<close>, then the longest run of \<open>D\<close>\<close>
  "re_start_plus_star P Q prev s =
     (if prev = None \<and> takeWhile P s \<noteq> []
      then Some (length (takeWhile P s) + length (takeWhile Q (dropWhile P s)))
      else None)"

definition re_start_class :: "(char \<Rightarrow> bool) \<Rightarrow> regex" where
  \<comment> \<open>\<^verbatim>\<open>^C\<close>: one character of the class at the start of the input\<close>
  "re_start_class P prev s = (if prev = None then re_class P prev s else None)"

definition wordBoundary :: "char option \<Rightarrow> string \<Rightarrow> bool" where
  \<comment> \<open>\<^verbatim>\<open>\b\<close>: exactly one of the characters before and after the position is a word character\<close>
  "wordBoundary prev s =
     ((case prev of None \<Rightarrow> False | Some c \<Rightarrow> isWordChar c)
        \<noteq> (case s of [] \<Rightarrow> False | c # cs \<Rightarrow> isWordChar c))"

definition re_word_start :: regex where
  \<comment> \<open>\<^verbatim>\<open>\b\w\<close>\<close>
  "re_word_start prev s = (if wordBoundary prev s then re_class isWordChar prev s else None)"

fun prefix_ci :: "string \<Rightarrow> string \<Rightarrow> bool" where
  \<comment> \<open>the literal \<open>w\<close> under the flag \<^verbatim>\<open>i\<close>, at the head of the input\<close>
  "prefix_ci [] s = True"
| "prefix_ci (a # w) [] = False"
| "prefix_ci (a # w) (c # s) = (toLowerChar c = toLowerChar a \<and> prefix_ci w s)"

fun re_alt_ci :: "string list \<Rightarrow> regex" where
  \<comment> \<open>\<^verbatim>\<open>w1|w2|...\<close> with the flag \<^verbatim>\<open>i\<close>: the first alternative that matches\<close>
  "re_alt_ci [] prev s = None"
| "re_alt_ci (w # ws) prev s = (if prefix_ci w s then Some (length w) else re_alt_ci ws prev s)"

fun re_alt_word_ci :: "string list \<Rightarrow> regex" where
  \<comment> \<open>\<^verbatim>\<open>\b(w1|w2|...)\b\<close> with the flag \<^verbatim>\<open>i\<close>: the first alternative that matches
      and ends at a word boundary\<close>
  "re_alt_word_ci [] prev s = None"
| "re_alt_word_ci (w # ws) prev s =
     (if wordBoundary prev s \<and> prefix_ci w s
         \<and> wordBoundary (if w = [] then prev else Some (last (take (length w) s)))
              (drop (length w) s)
      then Some (length w) else re_alt_word_ci ws prev s)"

fun re_alt_tail_ci :: "string list \<Rightarrow> (char \<Rightarrow> bool) \<Rightarrow> regex" where
  \<comment> \<open>\<^verbatim>\<open>w1C*|w2C*|...\<close> with the flag \<^verbatim>\<open>i\<close>\<close>
  "re_alt_tail_ci [] P prev s = None"
| "re_alt_tail_ci (w # ws) P prev s =
     (if prefix_ci w s then Some (length w + length (takeWhile P (drop (length w) s)))
      else re_alt_tail_ci ws P prev s)"

definition digitsThen :: "nat \<Rightarrow> string \<Rightarrow> string option" where
  \<comment> \<open>\<^verbatim>\<open>\d{k}\<close> at the head of the input: the rest after it\<close>
  "digitsThen k s =
     (if k \<le> length s \<and> list_all isDigit (take k s) then Some (drop k s) else None)"

definition colonThen :: "string \<Rightarrow> string option" where
  "colonThen s = (case s of [] \<Rightarrow> None | c # cs \<Rightarrow> if c = CHR '':'' then Some cs else None)"

definition re_time :: regex where
  \<comment> \<open>\<^verbatim>\<open>\d{1,2}:\d{2}:\d{2}\<close>: two leading digits are tried before one\<close>
  "re_time prev s =
     (let tail = (\<lambda>r. Option.bind (colonThen r) (\<lambda>r. Option.bind (digitsThen 2 r)
                   (\<lambda>r. Option.bind (colonThen r) (digitsThen 2))))
      in case Option.bind (digitsThen 2 s) tail of
           Some r \<Rightarrow> Some 8
         | None \<Rightarrow> (case Option.bind (digitsThen 1 s) tail of
                      Some r \<Rightarrow> Some 7
                    | None \<Rightarrow> None))"

definition re_braces :: regex where
  \<comment> \<open>\<^verbatim>\<open>\{[^{}]*\}\<close>\<close>
  "re_braces prev s =
     (case s of
        [] \<Rightarrow> None
      | c # cs \<Rightarrow>
          if c = CHR ''{''
          then (case dropWhile (\<lambda>x. x \<noteq> CHR ''{'' \<and> x \<noteq> CHR ''}'') cs of
                  [] \<Rightarrow> None
                | d # ds \<Rightarrow>
                    if d = CHR ''}''
                    then Some (length (takeWhile (\<lambda>x. x \<noteq> CHR ''{'' \<and> x \<noteq> CHR ''}'') cs) + 2)
                    else None)
          else None)"

section \<open>String carver, cleaner and relevance gate\<close>

text \<open>\<^verbatim>\<open>ImprovedLevelDBExtractor.cleanExtractedString\<close>; \<open>None\<close> is the source's \<^verbatim>\<open>null\<close>.\<close>

definition isNul :: "char \<Rightarrow> bool" where
  \<comment> \<open>\<^verbatim>\<open>\x00\<close>\<close>
  "isNul c = (charCode c = 0)"

definition isNonPrintable :: "char \<Rightarrow> bool" where
  \<comment> \<open>\<^verbatim>\<open>[\x01-\x08\x0B\x0C\x0E-\x1F\x7F-\xFF]\<close>\<close>
  "isNonPrintable c =
     ((1 \<le> charCode c \<and> charCode c \<le> 8) \<or> charCode c = 11 \<or> charCode c = 12
      \<or> (14 \<le> charCode c \<and> charCode c \<le> 31) \<or> (127 \<le> charCode c \<and> charCode c \<le> 255))"

definition cleanExtractedString :: "string \<Rightarrow> string option" where
  "cleanExtractedString str =
     (if str = [] then None
      else
        let cleaned = trim
              (re_replace_all (re_plus isSpace) (\<lambda>_. '' '')
                (re_replace_all (re_class isNonPrintable) (\<lambda>_. [])
                  (re_replace_all (re_plus isNul) (\<lambda>_. '' '') str)));
            cleaned = trim
              (re_replace (re_star_end (\<lambda>c. \<not> isAlnum c)) (\<lambda>_. [])
                (re_replace (re_start_star (\<lambda>c. \<not> isAlnum c)) (\<lambda>_. []) cleaned))
        in if length cleaned > 2 then Some cleaned else None)"

text \<open>\<^verbatim>\<open>ImprovedLevelDBExtractor.isValidLogData\<close>.\<close>

definition automaTerms :: "string list" where
  "automaTerms =
     [''trigger'', ''click'', ''type'', ''typing'', ''navigate'', ''wait'', ''scroll'',
      ''workflow'', ''tab'', ''element'', ''success'', ''failed'', ''error'',
      ''started'', ''completed'', ''new tab'', ''close'', ''reload'',
      ''typing_five'', ''logId'', ''workflowId'', ''status'', ''message'']"

definition isValidLogData :: "string \<Rightarrow> bool" where
  "isValidLogData str =
     (if str = [] \<or> length str < 3 then False
      else
        let lowerStr = toLowerCase str;
            hasAutomaTerms = list_ex (\<lambda>term. includesStr lowerStr term) automaTerms;
            hasTimePattern = re_test re_time str;
            hasLogPattern = re_test (re_alt_word_ci
              [''success'', ''failed'', ''error'', ''warning'', ''info'', ''debug'']) str;
            hasJSONLike = (includesStr str ''{'' \<or> includesStr str [CHR 0x22]
                           \<or> includesStr str '':'');
            hasAlphabetic = re_test (re_at_least 3 isAlpha) str
        in hasAlphabetic \<and> (hasAutomaTerms \<or> hasTimePattern \<or> hasLogPattern \<or> hasJSONLike))"

text \<open>
  \<^verbatim>\<open>ImprovedLevelDBExtractor.extractCleanStrings\<close>. The loop carries the strings kept so
  far and the current run; \<open>keepString\<close> is what the source does with a run that has ended,
  in the loop and once more after it.
\<close>

definition isPrintableByte :: "byte \<Rightarrow> bool" where
  "isPrintableByte b = ((b \<ge> 32 \<and> b \<le> 126) \<or> b = 9 \<or> b = 10 \<or> b = 13)"

definition minStringLength :: nat where
  "minStringLength = 3"

definition keepString :: "string list \<Rightarrow> string \<Rightarrow> string list" where
  "keepString strings currentString =
     (if length currentString \<ge> minStringLength
      then (case cleanExtractedString currentString of
              None \<Rightarrow> strings
            | Some cleaned \<Rightarrow> if isValidLogData cleaned then strings @ [cleaned] else strings)
      else strings)"

fun extractCleanStrings_loop :: "byte list \<Rightarrow> string list \<Rightarrow> string \<Rightarrow> string list" where
  "extractCleanStrings_loop [] strings currentString = keepString strings currentString"
| "extractCleanStrings_loop (b # buffer) strings currentString =
     (if isPrintableByte b
      then extractCleanStrings_loop buffer strings (currentString @ [fromCharCode b])
      else extractCleanStrings_loop buffer (keepString strings currentString) [])"

definition extractCleanStrings :: "byte list \<Rightarrow> string list" where
  "extractCleanStrings buffer = extractCleanStrings_loop buffer [] []"

text \<open>\<^verbatim>\<open>SimpleAutomaExtractor.extractStringsFromBuffer\<close>: the carver of the second variant.\<close>

definition isPrintableByte_simple :: "byte \<Rightarrow> bool" where
  "isPrintableByte_simple b = (b \<ge> 32 \<and> b \<le> 126)"

definition keepString_simple :: "string list \<Rightarrow> string \<Rightarrow> string list" where
  "keepString_simple strings currentString =
     (if length currentString > 3 then strings @ [currentString] else strings)"

fun extractStringsFromBuffer_loop :: "byte list \<Rightarrow> string list \<Rightarrow> string \<Rightarrow> string list" where
  "extractStringsFromBuffer_loop [] strings currentString =
     keepString_simple strings currentString"
| "extractStringsFromBuffer_loop (b # buffer) strings currentString =
     (if isPrintableByte_simple b
      then extractStringsFromBuffer_loop buffer strings (currentString @ [fromCharCode b])
      else extractStringsFromBuffer_loop buffer (keepString_simple strings currentString) [])"

definition hasSimpleKeyword :: "string \<Rightarrow> bool" where
  "hasSimpleKeyword s =
     (includesStr s ''workflow'' \<or> includesStr s ''typing''
      \<or> includesStr s ''trigger'' \<or> includesStr s ''click'')"

definition extractStringsFromBuffer :: "byte list \<Rightarrow> string list" where
  "extractStringsFromBuffer buffer =
     filter hasSimpleKeyword (extractStringsFromBuffer_loop buffer [] [])"

section \<open>Structured recoverer\<close>

text \<open>
  A value read from a parsed JSON fragment. The fragments are matches of
  \<^verbatim>\<open>\{[^{}]*\}\<close>, which hold no inner brace, so a field of the parsed object is never an
  object itself. Of a number the extractor observes two things only, whether it is zero
  and how it prints: \<open>JNum nz txt\<close> is a number that is non-zero iff \<open>nz\<close> and prints as
  \<open>txt\<close>. An object is the list of its fields, each key once.
\<close>

datatype jsval = JNull | JBool bool | JNum bool string | JStr string | JArr "jsval list"

type_synonym jsobject = "(string \<times> jsval) list"

datatype entry =
    Json (parsedObject: jsobject) (rawText: string)
  | LogEntry (workflowToken: string) (actionToken: string) (statusToken: string)
      (timeToken: string) (rawText: string)

text \<open>
  \<^verbatim>\<open>{type: 'json', data, raw}\<close> is \<open>Json data raw\<close>, and
  \<^verbatim>\<open>{type: 'log_entry', workflow, action, status, time, raw}\<close> is
  \<open>LogEntry workflow action status time raw\<close>.
  \<^verbatim>\<open>JSON.parse\<close> and \<^verbatim>\<open>JSON.stringify\<close> belong to the runtime and are parameters:
  \<open>JSON_parse s\<close> is \<open>None\<close> where \<^verbatim>\<open>JSON.parse\<close> throws.
\<close>

definition containsWorkflowData :: "(jsobject \<Rightarrow> string) \<Rightarrow> jsobject \<Rightarrow> bool" where
  "containsWorkflowData JSON_stringify data =
     (let dataStr = toLowerCase (JSON_stringify data)
      in includesStr dataStr ''workflow'' \<or> includesStr dataStr ''trigger''
         \<or> includesStr dataStr ''typing'' \<or> includesStr dataStr ''logid''
         \<or> includesStr dataStr ''workflowid'')"

fun jsonEntries ::
  "(string \<Rightarrow> jsobject option) \<Rightarrow> (jsobject \<Rightarrow> string) \<Rightarrow> string list \<Rightarrow> entry list" where
  "jsonEntries JSON_parse JSON_stringify [] = []"
| "jsonEntries JSON_parse JSON_stringify (match # jsonMatches) =
     (case JSON_parse match of
        None \<Rightarrow> jsonEntries JSON_parse JSON_stringify jsonMatches
      | Some parsed \<Rightarrow>
          if containsWorkflowData JSON_stringify parsed
          then Json parsed match # jsonEntries JSON_parse JSON_stringify jsonMatches
          else jsonEntries JSON_parse JSON_stringify jsonMatches)"

definition re_workflow :: regex where
  \<comment> \<open>\<^verbatim>\<open>/typing[_\w]*|workflow[_\w]*/i\<close>\<close>
  "re_workflow = re_alt_tail_ci [''typing'', ''workflow''] isWordChar"

definition re_action :: regex where
  \<comment> \<open>\<^verbatim>\<open>/trigger|click|type|navigate|wait|scroll|tab|element/i\<close>\<close>
  "re_action = re_alt_ci
     [''trigger'', ''click'', ''type'', ''navigate'', ''wait'', ''scroll'', ''tab'', ''element'']"

definition re_status :: regex where
  \<comment> \<open>\<^verbatim>\<open>/success|failed|error|completed|started/i\<close>\<close>
  "re_status = re_alt_ci [''success'', ''failed'', ''error'', ''completed'', ''started'']"

definition logEntryOf :: "string \<Rightarrow> entry list" where
  "logEntryOf str =
     (let workflowMatch = re_match re_workflow str;
          actionMatch = re_match re_action str;
          statusMatch = re_match re_status str;
          timeMatch = re_match re_time str
      in if workflowMatch \<noteq> None \<or> actionMatch \<noteq> None \<or> statusMatch \<noteq> None
            \<or> timeMatch \<noteq> None
         then [LogEntry (case workflowMatch of Some w \<Rightarrow> w | None \<Rightarrow> ''Unknown'')
                        (case actionMatch of Some a \<Rightarrow> a | None \<Rightarrow> [])
                        (case statusMatch of Some s \<Rightarrow> s | None \<Rightarrow> [])
                        (case timeMatch of Some t \<Rightarrow> t | None \<Rightarrow> [])
                        str]
         else [])"

definition extractStructuredData ::
  "(string \<Rightarrow> jsobject option) \<Rightarrow> (jsobject \<Rightarrow> string) \<Rightarrow> string list \<Rightarrow> entry list" where
  "extractStructuredData JSON_parse JSON_stringify strings =
     concat (map (\<lambda>str.
       (if includesStr str ''{'' \<and> includesStr str ''}''
        then jsonEntries JSON_parse JSON_stringify (re_match_all re_braces str)
        else [])
       @ logEntryOf str) strings)"

section \<open>Classifier and humanizer\<close>

text \<open>
  What the source raises. The humanizer calls \<^verbatim>\<open>replace\<close> on the workflow name and on the
  log text; on a value that is not a string this is a \<^verbatim>\<open>TypeError\<close>.
\<close>

datatype error = TypeError | IOError

text \<open>Truthiness and the conversion to a string (of \<^verbatim>\<open>+=\<close> and of a template literal).\<close>

fun truthy :: "jsval \<Rightarrow> bool" where
  "truthy JNull = False"
| "truthy (JBool b) = b"
| "truthy (JNum nz txt) = nz"
| "truthy (JStr s) = (s \<noteq> [])"
| "truthy (JArr xs) = True"

fun toStr :: "jsval \<Rightarrow> string" where
  "toStr JNull = ''null''"
| "toStr (JBool b) = (if b then ''true'' else ''false'')"
| "toStr (JNum nz txt) = txt"
| "toStr (JStr s) = s"
| "toStr (JArr xs) = join (map (\<lambda>x. if x = JNull then [] else toStr x) xs) '',''"

definition field :: "jsobject \<Rightarrow> string \<Rightarrow> jsval" where
  \<comment> \<open>\<^verbatim>\<open>data.key\<close>; a missing field reads \<^verbatim>\<open>undefined\<close>, falsy as \<^verbatim>\<open>null\<close> is\<close>
  "field data key = (case map_of data key of Some v \<Rightarrow> v | None \<Rightarrow> JNull)"

record readable =
  workflow :: string
  log :: string

definition actionMap :: "(string \<times> string) list" where
  "actionMap =
     [(''trigger'', ''Started workflow''),
      (''click'', ''Clicked element''),
      (''type'', ''Typed text''),
      (''typing'', ''Typed text''),
      (''navigate'', ''Navigated to page''),
      (''wait'', ''Waited''),
      (''scroll'', ''Scrolled page''),
      (''tab'', ''Opened tab''),
      (''element'', ''Interacted with element'')]"

definition humanizeAction :: "string \<Rightarrow> string" where
  \<comment> \<open>called on a match of \<open>re_action\<close> only, which names no inherited property\<close>
  "humanizeAction action =
     (case map_of actionMap (toLowerCase action) of Some phrase \<Rightarrow> phrase | None \<Rightarrow> action)"

fun cleanWorkflowName :: "jsval \<Rightarrow> error + string" where
  "cleanWorkflowName (JStr name) =
     (if name = [] \<or> name = ''Unknown'' then Inr ''Unknown Workflow''
      else Inr (trim
        (re_replace_all re_word_start toUpperCase
          (re_replace_all (re_class (\<lambda>c. c = CHR ''_'' \<or> c = CHR ''-'')) (\<lambda>_. '' '') name))))"
| "cleanWorkflowName name = (if \<not> truthy name then Inr ''Unknown Workflow'' else Inl TypeError)"

fun cleanLogEntry :: "jsval \<Rightarrow> error + string" where
  "cleanLogEntry (JStr entry) =
     (if entry = [] then Inr []
      else Inr (re_replace (re_start_class (\<lambda>c. \<not> isLineTerminator c)) toUpperCase
        (trim
          (re_replace_all (re_plus isSpace) (\<lambda>_. '' '')
            (re_replace (re_start_plus_star isDigit isSpace) (\<lambda>_. []) entry)))))"
| "cleanLogEntry entry = (if \<not> truthy entry then Inr [] else Inl TypeError)"

text \<open>
  \<^verbatim>\<open>ImprovedLevelDBExtractor.convertToHumanReadable\<close>. \<open>entryWorkflow\<close> and
  \<open>entryReadable\<close> are the values of the variables \<^verbatim>\<open>workflow\<close> and \<^verbatim>\<open>readable\<close> after
  the two branches of the loop body (\<open>workflow'\<close> in the equations, as \<open>workflow\<close> is the
  field of the record); \<open>hasLength\<close> is the test
  \<^verbatim>\<open>readable && readable.length > 0\<close>.
\<close>

fun entryWorkflow :: "entry \<Rightarrow> jsval" where
  "entryWorkflow (Json data raw) =
     (let workflow' = JStr ''Unknown'';
          workflow' = (if truthy (field data ''name'') then field data ''name'' else workflow');
          workflow' = (if truthy (field data ''workflowId'') then field data ''workflowId''
                       else workflow')
      in workflow')"
| "entryWorkflow (LogEntry workflow' action status time raw) =
     JStr (if workflow' \<noteq> [] then workflow' else ''Unknown'')"

fun entryReadable :: "entry \<Rightarrow> jsval" where
  "entryReadable (Json data raw) =
     (let readable = JStr [];
          readable = (if truthy (field data ''message'') then field data ''message''
                      else readable);
          readable = (if truthy (field data ''status'')
                      then JStr (toStr readable @ '' ('' @ toStr (field data ''status'') @ '')'')
                      else readable)
      in readable)"
| "entryReadable (LogEntry workflow' action status time raw) =
     (let parts = (if time \<noteq> [] then [''at '' @ time] else [])
                  @ (if action \<noteq> [] then [humanizeAction action] else [])
                  @ (if status \<noteq> [] then [''- '' @ status] else [])
      in JStr (if join parts '' '' \<noteq> [] then join parts '' '' else raw))"

fun hasLength :: "jsval \<Rightarrow> bool" where
  "hasLength (JStr s) = (s \<noteq> [])"
| "hasLength (JArr xs) = (xs \<noteq> [])"
| "hasLength v = False"

fun convertToHumanReadable_loop :: "entry list \<Rightarrow> readable list \<Rightarrow> error + readable list" where
  "convertToHumanReadable_loop [] readableEntries = Inr readableEntries"
| "convertToHumanReadable_loop (entry # structuredData) readableEntries =
     (if hasLength (entryReadable entry)
      then (case cleanWorkflowName (entryWorkflow entry) of
              Inl e \<Rightarrow> Inl e
            | Inr w \<Rightarrow>
                (case cleanLogEntry (entryReadable entry) of
                   Inl e \<Rightarrow> Inl e
                 | Inr l \<Rightarrow>
                     convertToHumanReadable_loop structuredData
                       (readableEntries @ [\<lparr>workflow = w, log = l\<rparr>])))
      else convertToHumanReadable_loop structuredData readableEntries)"

definition convertToHumanReadable :: "entry list \<Rightarrow> error + readable list" where
  "convertToHumanReadable structuredData = convertToHumanReadable_loop structuredData []"

section \<open>The environment of a run\<close>

text \<open>
  The file system and the clock are the environment. A run reads the file system first
  and writes afterwards, and it never reads what it wrote, so the reads are functions of
  the path (\<open>None\<close> where the call throws) and the writes are collected in the state
  \<open>out\<close>: the directories ensured and the files written, in the order of the calls.
  \<open>now e k\<close> is what \<^verbatim>\<open>new Date().toISOString()\<close> returns at the \<open>k\<close>-th reading of the
  clock by the serializer, and \<open>ticks\<close> counts the readings made so far. The lines that
  \<^verbatim>\<open>log\<close> prints on the console are not modelled. \<^verbatim>\<open>path.join\<close> also normalises the
  path it builds; paths are only arguments of the environment here.
\<close>

record stats =
  isFile :: bool
  size :: nat

record env =
  cwd :: string
  pathExists :: "string \<Rightarrow> bool"
  readdir :: "string \<Rightarrow> string list option"
  stat :: "string \<Rightarrow> stats option"
  readFile :: "string \<Rightarrow> byte list option"
  canEnsureDir :: "string \<Rightarrow> bool"
  canWriteFile :: "string \<Rightarrow> bool"
  now :: "nat \<Rightarrow> string"

record out =
  ensured :: "string list"
  written :: "(string \<times> string) list"
  ticks :: nat

definition path_join :: "string list \<Rightarrow> string" where
  "path_join parts = join parts ''/''"

definition outputDir :: string where
  "outputDir = ''/workspace/automa-exports''"

section \<open>Aggregator and CSV serializer\<close>

text \<open>
  The grouping object \<^verbatim>\<open>workflows\<close> is the list of its own properties in insertion
  order. A name that \<^verbatim>\<open>Object.prototype\<close> defines reads as a value that is truthy and has
  no \<^verbatim>\<open>push\<close>. \<^verbatim>\<open>Object.entries\<close> lists the keys that are array indices first, in
  ascending order, then the others in insertion order.
\<close>

definition objectPrototypeKeys :: "string list" where
  "objectPrototypeKeys =
     [''constructor'', ''__defineGetter__'', ''__defineSetter__'', ''hasOwnProperty'',
      ''__lookupGetter__'', ''__lookupSetter__'', ''isPrototypeOf'',
      ''propertyIsEnumerable'', ''toString'', ''valueOf'', ''__proto__'',
      ''toLocaleString'']"

fun groupByWorkflow ::
  "readable list \<Rightarrow> (string \<times> string list) list \<Rightarrow> error + (string \<times> string list) list" where
  "groupByWorkflow [] workflows = Inr workflows"
| "groupByWorkflow (item # readableData) workflows =
     (let workflowName = (if workflow item \<noteq> [] then workflow item else ''Unknown Workflow'')
      in case map_of workflows workflowName of
           Some logs \<Rightarrow>
             groupByWorkflow readableData
               (AList.update workflowName (logs @ [log item]) workflows)
         | None \<Rightarrow>
             if workflowName \<in> set objectPrototypeKeys then Inl TypeError
             else groupByWorkflow readableData
                    (AList.update workflowName [log item] workflows))"

definition digitsValue :: "string \<Rightarrow> int" where
  "digitsValue k = foldl (\<lambda>n c. 10 * n + (int (charCode c) - 48)) 0 k"

definition isArrayIndex :: "string \<Rightarrow> bool" where
  "isArrayIndex k =
     (k \<noteq> [] \<and> list_all isDigit k \<and> (k = ''0'' \<or> hd k \<noteq> CHR ''0'')
      \<and> digitsValue k < 4294967295)"

definition objectEntries :: "(string \<times> 'a) list \<Rightarrow> (string \<times> 'a) list" where
  "objectEntries obj =
     sort_key (\<lambda>kv. digitsValue (fst kv)) (filter (\<lambda>kv. isArrayIndex (fst kv)) obj)
     @ filter (\<lambda>kv. \<not> isArrayIndex (fst kv)) obj"

text \<open>The fields of a row, as \<^verbatim>\<open>saveToCSV\<close> computes them in both of its loops.\<close>

definition DQ :: char where
  "DQ = CHR 0x22"

definition NL :: char where
  "NL = CHR 0x0A"

definition re_csv_status :: regex where
  \<comment> \<open>\<^verbatim>\<open>/\b(success|failed|error|completed|started)\b/i\<close>\<close>
  "re_csv_status =
     re_alt_word_ci [''success'', ''failed'', ''error'', ''completed'', ''started'']"

definition re_csv_action :: regex where
  \<comment> \<open>\<^verbatim>\<open>/\b(clicked|typed|navigated|waited|scrolled|started|opened)\b/i\<close>\<close>
  "re_csv_action =
     re_alt_word_ci
       [''clicked'', ''typed'', ''navigated'', ''waited'', ''scrolled'', ''started'', ''opened'']"

definition csvLogValue :: "string \<Rightarrow> string" where
  "csvLogValue log' =
     (let escapedLog = re_replace_all (re_class (\<lambda>c. c = DQ)) (\<lambda>_. [DQ, DQ]) log';
          needsQuotes = (includesStr log' '','' \<or> includesStr log' [NL] \<or> includesStr log' [DQ])
      in if needsQuotes then [DQ] @ escapedLog @ [DQ] else escapedLog)"

definition csvStatus :: "string \<Rightarrow> string" where
  "csvStatus log' = (case re_match re_csv_status log' of Some m \<Rightarrow> m | None \<Rightarrow> ''info'')"

definition csvAction :: "string \<Rightarrow> string" where
  "csvAction log' = (case re_match re_csv_action log' of Some m \<Rightarrow> m | None \<Rightarrow> ''action'')"

definition workflowRow :: "string \<Rightarrow> string \<Rightarrow> string \<Rightarrow> string" where
  \<comment> \<open>a row of a per-workflow file, written at the time \<open>timestamp\<close>\<close>
  "workflowRow timestamp workflowName log' =
     [DQ] @ timestamp @ [DQ] @ '','' @ [DQ] @ workflowName @ [DQ] @ '','' @ [DQ]
     @ csvAction log' @ [DQ] @ '','' @ [DQ] @ csvStatus log' @ [DQ] @ [NL]"

definition combinedRow :: "string \<Rightarrow> readable \<Rightarrow> string" where
  \<comment> \<open>a row of the combined file, written at the time \<open>timestamp\<close>\<close>
  "combinedRow timestamp item =
     [DQ] @ timestamp @ [DQ] @ '','' @ [DQ] @ workflow item @ [DQ] @ '',''
     @ csvLogValue (log item) @ '','' @ [DQ] @ csvAction (log item) @ [DQ] @ '','' @ [DQ]
     @ csvStatus (log item) @ [DQ] @ [NL]"

fun workflowRows :: "(nat \<Rightarrow> string) \<Rightarrow> nat \<Rightarrow> string \<Rightarrow> string list \<Rightarrow> string list" where
  "workflowRows clock k workflowName [] = []"
| "workflowRows clock k workflowName (log' # logs) =
     workflowRow (clock k) workflowName log' # workflowRows clock (Suc k) workflowName logs"

fun combinedRows :: "(nat \<Rightarrow> string) \<Rightarrow> nat \<Rightarrow> readable list \<Rightarrow> string list" where
  "combinedRows clock k [] = []"
| "combinedRows clock k (item # readableData) =
     combinedRow (clock k) item # combinedRows clock (Suc k) readableData"

text \<open>
  \<^verbatim>\<open>ImprovedLevelDBExtractor.saveToCSV\<close>: first the loop over the groups, one file each,
  then the function. \<open>None\<close> is the source's \<^verbatim>\<open>null\<close>. A failure keeps the state reached.
\<close>

definition isFilenameChar :: "char \<Rightarrow> bool" where
  \<comment> \<open>\<^verbatim>\<open>[a-zA-Z0-9_\s-]\<close>\<close>
  "isFilenameChar c = (isAlnum c \<or> c = CHR ''_'' \<or> isSpace c \<or> c = CHR ''-'')"

fun saveWorkflowFiles ::
  "env \<Rightarrow> string \<Rightarrow> (string \<times> string list) list \<Rightarrow> string list \<Rightarrow> out
   \<Rightarrow> (error + string list) \<times> out" where
  "saveWorkflowFiles e timestamp [] savedFiles st = (Inr savedFiles, st)"
| "saveWorkflowFiles e timestamp ((workflowName, logs) # groups) savedFiles st =
     (let cleanName = take 30
            (re_replace_all (re_class (\<lambda>c. \<not> isFilenameChar c)) (\<lambda>_. ''_'') workflowName);
          filename = cleanName @ ''_'' @ timestamp @ ''.csv'';
          filepath = path_join [outputDir, filename];
          csvContent = ''timestamp,workflow_name,action,status'' @ [NL]
            @ concat (workflowRows (now e) (ticks st) workflowName logs);
          st = st\<lparr>ticks := ticks st + length logs\<rparr>
      in if canWriteFile e filepath
         then saveWorkflowFiles e timestamp groups (savedFiles @ [filepath])
                (st\<lparr>written := written st @ [(filepath, csvContent)]\<rparr>)
         else (Inl IOError, st))"

definition saveCombined ::
  "env \<Rightarrow> string \<Rightarrow> readable list \<Rightarrow> string list \<Rightarrow> out
   \<Rightarrow> (error + string list option) \<times> out" where
  "saveCombined e timestamp readableData savedFiles st =
     (let combinedFilename = ''all_workflows_'' @ timestamp @ ''.csv'';
          combinedFilepath = path_join [outputDir, combinedFilename];
          combinedContent = ''timestamp,workflow_name,log_entry,action,status'' @ [NL]
            @ concat (combinedRows (now e) (ticks st) readableData);
          st = st\<lparr>ticks := ticks st + length readableData\<rparr>
      in if canWriteFile e combinedFilepath
         then (Inr (Some (savedFiles @ [combinedFilepath])),
               st\<lparr>written := written st @ [(combinedFilepath, combinedContent)]\<rparr>)
         else (Inl IOError, st))"

definition saveToCSV :: "env \<Rightarrow> entry list \<Rightarrow> out \<Rightarrow> (error + string list option) \<times> out" where
  "saveToCSV e workflowData st =
     (if workflowData = [] then (Inr None, st)
      else if \<not> canEnsureDir e outputDir then (Inl IOError, st)
      else
        let st = st\<lparr>ensured := ensured st @ [outputDir]\<rparr>
        in case convertToHumanReadable workflowData of
             Inl err \<Rightarrow> (Inl err, st)
           | Inr readableData \<Rightarrow>
               if readableData = [] then (Inr None, st)
               else (case groupByWorkflow readableData [] of
                       Inl err \<Rightarrow> (Inl err, st)
                     | Inr workflows \<Rightarrow>
                         let timestamp = takeWhile (\<lambda>c. c \<noteq> CHR ''T'') (now e (ticks st));
                             saved = saveWorkflowFiles e timestamp (objectEntries workflows) []
                                       (st\<lparr>ticks := Suc (ticks st)\<rparr>)
                         in case fst saved of
                              Inl err \<Rightarrow> (Inl err, snd saved)
                            | Inr savedFiles \<Rightarrow>
                                saveCombined e timestamp readableData savedFiles (snd saved)))"

section \<open>Source locator and the run\<close>

definition possiblePaths :: "env \<Rightarrow> string list" where
  "possiblePaths e =
     [''/workspaces/test2/chrome_profile'',
      ''/workspace/chrome_profile'',
      cwd e @ ''/chrome_profile'',
      ''./chrome_profile'']"

definition findChromeProfiles :: "env \<Rightarrow> string list" where
  "findChromeProfiles e =
     (case filter (pathExists e) (possiblePaths e) of
        [] \<Rightarrow> []
      | profilePath # others \<Rightarrow> [profilePath])"

definition findIndexedDBDirs :: "env \<Rightarrow> string list \<Rightarrow> string list" where
  "findIndexedDBDirs e profilePaths =
     filter (pathExists e)
       (map (\<lambda>profilePath. path_join [profilePath, ''Default'', ''IndexedDB'']) profilePaths)"

definition findAutomaExtensions :: "env \<Rightarrow> string list \<Rightarrow> string list" where
  "findAutomaExtensions e indexedDBDirs =
     concat (map (\<lambda>idbDir.
       case readdir e idbDir of
         None \<Rightarrow> []
       | Some contents \<Rightarrow>
           map (\<lambda>item. path_join [idbDir, item])
             (filter (\<lambda>item. startsWith item ''chrome-extension_''
                            \<and> endsWith item ''.indexeddb.leveldb'') contents))
       indexedDBDirs)"

text \<open>
  \<^verbatim>\<open>ImprovedLevelDBExtractor.extractWorkflowData\<close>. A file that cannot be read is skipped;
  a \<^verbatim>\<open>stat\<close> that throws leaves the loop over the files of its directory, and what the
  directory gave before stays.
\<close>

fun processFiles ::
  "env \<Rightarrow> (string \<Rightarrow> jsobject option) \<Rightarrow> (jsobject \<Rightarrow> string) \<Rightarrow> string \<Rightarrow> string list
   \<Rightarrow> entry list" where
  "processFiles e JSON_parse JSON_stringify automaDir [] = []"
| "processFiles e JSON_parse JSON_stringify automaDir (file # files) =
     (case stat e (path_join [automaDir, file]) of
        None \<Rightarrow> []
      | Some stats \<Rightarrow>
          (if isFile stats
              \<and> (endsWith file ''.log'' \<or> endsWith file ''.ldb'' \<or> file = ''CURRENT''
                  \<or> file = ''MANIFEST-000001'')
           then (case readFile e (path_join [automaDir, file]) of
                   None \<Rightarrow> []
                 | Some buffer \<Rightarrow>
                     let strings = extractCleanStrings buffer
                     in if strings \<noteq> []
                        then extractStructuredData JSON_parse JSON_stringify strings
                        else [])
           else [])
          @ processFiles e JSON_parse JSON_stringify automaDir files)"

definition extractWorkflowData ::
  "env \<Rightarrow> (string \<Rightarrow> jsobject option) \<Rightarrow> (jsobject \<Rightarrow> string) \<Rightarrow> string list
   \<Rightarrow> entry list" where
  "extractWorkflowData e JSON_parse JSON_stringify automaDirs =
     concat (map (\<lambda>automaDir.
       if pathExists e automaDir
       then (case readdir e automaDir of
               None \<Rightarrow> []
             | Some files \<Rightarrow> processFiles e JSON_parse JSON_stringify automaDir files)
       else []) automaDirs)"

text \<open>
  \<^verbatim>\<open>ImprovedLevelDBExtractor.run\<close>; \<open>Inr None\<close> is a return without a list of files
  (\<^verbatim>\<open>undefined\<close> or \<^verbatim>\<open>null\<close>). \<open>exitCode\<close> is the end of the script: a rejected run
  calls \<^verbatim>\<open>process.exit(1)\<close>, otherwise the process ends with code 0.
\<close>

definition run ::
  "env \<Rightarrow> (string \<Rightarrow> jsobject option) \<Rightarrow> (jsobject \<Rightarrow> string) \<Rightarrow> out
   \<Rightarrow> (error + string list option) \<times> out" where
  "run e JSON_parse JSON_stringify st =
     (let profilePaths = findChromeProfiles e
      in if profilePaths = [] then (Inr None, st)
         else
           let indexedDBDirs = findIndexedDBDirs e profilePaths
           in if indexedDBDirs = [] then (Inr None, st)
              else
                let automaDirs = findAutomaExtensions e indexedDBDirs
                in if automaDirs = [] then (Inr None, st)
                   else
                     let structuredData =
                           extractWorkflowData e JSON_parse JSON_stringify automaDirs
                     in if structuredData = [] then (Inr None, st)
                        else saveToCSV e structuredData st)"

definition exitCode :: "(error + string list option) \<Rightarrow> nat" where
  "exitCode result = (case result of Inl err \<Rightarrow> 1 | Inr savedFiles \<Rightarrow> 0)"

section \<open>Notions of the specification\<close>

text \<open>
  The definitions of this section follow the words of the specification, not the source;
  the theorems compare them with the functions above.
\<close>

subsection \<open>Maximal runs\<close>

text \<open>
  The maximal runs of elements that satisfy \<open>P\<close>, from left to right: a run starts at an
  element that satisfies \<open>P\<close> and goes on to the first element that does not, or to the end
  of the list.
\<close>

function maximalRuns :: "('a \<Rightarrow> bool) \<Rightarrow> 'a list \<Rightarrow> 'a list list" where
  "maximalRuns P [] = []"
| "maximalRuns P (x # xs) =
     (if P x then takeWhile P (x # xs) # maximalRuns P (dropWhile P xs)
      else maximalRuns P xs)"
  by pat_completeness auto
termination
  by (relation "measure (\<lambda>(P, xs). length xs)")
     (auto simp: less_Suc_eq_le length_dropWhile_le)

definition validated :: "string \<Rightarrow> string option" where
  \<comment> \<open>a candidate that survives the cleaning and the relevance gate\<close>
  "validated candidate =
     (case cleanExtractedString candidate of
        None \<Rightarrow> None
      | Some cleaned \<Rightarrow> if isValidLogData cleaned then Some cleaned else None)"

subsection \<open>The examples of the specification\<close>

definition asciiBytes :: "string \<Rightarrow> byte list" where
  \<comment> \<open>a text as the bytes of a buffer\<close>
  "asciiBytes s = map (\<lambda>c. of_nat (charCode c)) s"

definition workflowStartedLine :: string where
  "workflowStartedLine = ''Workflow started at 10:15:42 - success''"

definition typingFiveObject :: jsobject where
  \<comment> \<open>the object that \<^verbatim>\<open>{"name":"Typing Five","status":"done"}\<close> parses to\<close>
  "typingFiveObject = [(''name'', JStr ''Typing Five''), (''status'', JStr ''done'')]"

definition typingFiveText :: string where
  "typingFiveText =
     ''{'' @ [DQ] @ ''name'' @ [DQ] @ '':'' @ [DQ] @ ''Typing Five'' @ [DQ] @ '',''
     @ [DQ] @ ''status'' @ [DQ] @ '':'' @ [DQ] @ ''done'' @ [DQ] @ ''}''"

subsection \<open>Strings that differ by null bytes\<close>

definition withoutNuls :: "string \<Rightarrow> string" where
  \<comment> \<open>two strings differ only by null bytes when they are equal without them\<close>
  "withoutNuls s = filter (\<lambda>c. \<not> isNul c) s"

fun squeezeNuls :: "string \<Rightarrow> string" where
  \<comment> \<open>every run of null bytes shortened to one null byte: two strings differ only in the
      lengths of their runs of null bytes when they are equal after it\<close>
  "squeezeNuls (a # b # s) =
     (if isNul a \<and> isNul b then squeezeNuls (b # s) else a # squeezeNuls (b # s))"
| "squeezeNuls s = s"

subsection \<open>What the relevance gate looks for\<close>

definition charBefore :: "char option \<Rightarrow> string \<Rightarrow> char option" where
  \<comment> \<open>the character before the position that follows \<open>pre\<close>, in an input that starts
      after \<open>prev\<close>\<close>
  "charBefore prev pre = (if pre = [] then prev else Some (last pre))"

definition hasAlphaRun :: "nat \<Rightarrow> string \<Rightarrow> bool" where
  \<comment> \<open>an alphabetic run of length \<open>k\<close> or more\<close>
  "hasAlphaRun k s = (\<exists>pre r post. s = pre @ r @ post \<and> k \<le> length r \<and> list_all isAlpha r)"

definition isTimeToken :: "string \<Rightarrow> bool" where
  \<comment> \<open>\<open>H:MM:SS\<close> or \<open>HH:MM:SS\<close>\<close>
  "isTimeToken t =
     (\<exists>h m sec. t = h @ '':'' @ m @ '':'' @ sec \<and> (length h = 1 \<or> length h = 2)
        \<and> length m = 2 \<and> length sec = 2 \<and> list_all isDigit (h @ m @ sec))"

definition containsTime :: "string \<Rightarrow> bool" where
  "containsTime s = (\<exists>pre t post. s = pre @ t @ post \<and> isTimeToken t)"

definition wholeWordBetween :: "string \<Rightarrow> string \<Rightarrow> bool" where
  \<comment> \<open>no word character stands right before or right after what is between \<open>pre\<close> and \<open>post\<close>\<close>
  "wholeWordBetween pre post =
     ((pre = [] \<or> \<not> isWordChar (last pre)) \<and> (post = [] \<or> \<not> isWordChar (hd post)))"

definition occursAsWord :: "string list \<Rightarrow> string \<Rightarrow> bool" where
  \<comment> \<open>one of the words occurs as a whole word, in any mix of cases\<close>
  "occursAsWord ws s =
     (\<exists>pre w post. s = pre @ w @ post \<and> toLowerCase w \<in> set ws \<and> wholeWordBetween pre post)"

definition specVocabulary :: "string list" where
  \<comment> \<open>the domain keywords that the specification lists\<close>
  "specVocabulary =
     [''trigger'', ''click'', ''type'', ''typing'', ''navigate'', ''wait'', ''scroll'', ''tab'',
      ''element'', ''success'', ''failed'', ''error'', ''started'', ''completed'',
      ''logid'', ''workflowid'', ''status'', ''message'']"

definition moreVocabulary :: "string list" where
  \<comment> \<open>the terms of the source that the specification does not list\<close>
  "moreVocabulary = [''workflow'', ''new tab'', ''close'', ''reload'', ''typing_five'']"

definition levelWords :: "string list" where
  "levelWords = [''success'', ''failed'', ''error'', ''warning'', ''info'', ''debug'']"

definition relevant :: "string list \<Rightarrow> string \<Rightarrow> bool" where
  \<comment> \<open>the condition of the relevance gate, for a vocabulary of domain keywords\<close>
  "relevant vocabulary s =
     (hasAlphaRun 3 s
      \<and> ((\<exists>kw \<in> set vocabulary. sublist kw (toLowerCase s))
          \<or> containsTime s
          \<or> occursAsWord levelWords s
          \<or> CHR ''{'' \<in> set s \<or> DQ \<in> set s \<or> CHR '':'' \<in> set s))"

definition wordHere :: "string \<Rightarrow> char option \<Rightarrow> string \<Rightarrow> bool" where
  \<comment> \<open>\<open>x\<close> starts with the word \<open>w\<close>, in any mix of cases, as a whole word; \<open>prev\<close> is the
      character before \<open>x\<close>\<close>
  "wordHere w prev x =
     (\<exists>u rest. x = u @ rest \<and> toLowerCase u = w
        \<and> \<not> (case prev of None \<Rightarrow> False | Some c \<Rightarrow> isWordChar c)
        \<and> (rest = [] \<or> \<not> isWordChar (hd rest)))"

subsection \<open>Fields derived again from the log text\<close>





subsection \<open>Reading a CSV field back\<close>

text \<open>
  The standard quoting rules: a field that starts with a double quote goes on to the next
  double quote that is not doubled, a doubled one stands for one double quote, and a
  delimiter (a comma, a newline) or the end of the input must follow the closing one; a
  field that does not start with a double quote goes on to the next delimiter and holds
  no double quote. \<open>csvField\<close> reads the field at the head of the input and returns it with
  the input that follows it, or \<open>None\<close> when the input breaks the rules.
\<close>

fun quotedField :: "string \<Rightarrow> (string \<times> string) option" where
  "quotedField [] = None"
| "quotedField [c] = (if c = DQ then Some ([], []) else None)"
| "quotedField (c # d # s) =
     (if c = DQ
      then (if d = DQ
            then map_option (\<lambda>(fld, rest). (DQ # fld, rest)) (quotedField s)
            else Some ([], d # s))
      else map_option (\<lambda>(fld, rest). (c # fld, rest)) (quotedField (d # s)))"

definition isDelimiter :: "char \<Rightarrow> bool" where
  "isDelimiter c = (c = CHR '','' \<or> c = NL)"

definition csvField :: "string \<Rightarrow> (string \<times> string) option" where
  "csvField s =
     (case s of
        [] \<Rightarrow> Some ([], [])
      | c # cs \<Rightarrow>
          if c = DQ
          then (case quotedField cs of
                  None \<Rightarrow> None
                | Some (fld, rest) \<Rightarrow>
                    if rest = [] \<or> isDelimiter (hd rest) then Some (fld, rest) else None)
          else if DQ \<in> set (takeWhile (\<lambda>x. \<not> isDelimiter x) s) then None
          else Some (takeWhile (\<lambda>x. \<not> isDelimiter x) s, dropWhile (\<lambda>x. \<not> isDelimiter x) s))"

definition quotedNameObject :: jsobject where
  \<comment> \<open>the object that \<^verbatim>\<open>{"name":"typing \"a\"","message":"ok"}\<close> parses to\<close>
  "quotedNameObject =
     [(''name'', JStr (''typing '' @ [DQ] @ ''a'' @ [DQ])), (''message'', JStr ''ok'')]"

subsection \<open>Rows that carry the time of their writing\<close>

definition enrichedHeader :: string where
  "enrichedHeader = ''timestamp,workflow_name,action,status'' @ [NL]"

definition combinedHeader :: string where
  "combinedHeader = ''timestamp,workflow_name,log_entry,action,status'' @ [NL]"

definition stamped :: "(nat \<Rightarrow> string) \<Rightarrow> nat \<Rightarrow> string list \<Rightarrow> bool" where
  \<comment> \<open>the texts begin with the readings \<open>k\<close>, \<open>k + 1\<close>, ... of the clock, one each, between
      double quotes and with a comma after them\<close>
  "stamped clock k rows =
     (\<forall>i < length rows. \<exists>fields. rows ! i = [DQ] @ clock (k + i) @ [DQ] @ '','' @ fields)"

definition sheet :: "string \<times> string \<Rightarrow> string \<times> string list \<Rightarrow> bool" where
  \<comment> \<open>the file holds the header line and then the texts \<open>snd hr\<close>, and nothing else\<close>
  "sheet file hr =
     (snd file = fst hr @ concat (snd hr)
      \<and> (fst hr = enrichedHeader \<or> fst hr = combinedHeader))"

definition exampleEnv :: env where
  \<comment> \<open>an environment in which every write succeeds; the clock advances by a second\<close>
  "exampleEnv =
     \<lparr>cwd = ''/home'', pathExists = (\<lambda>p. False), readdir = (\<lambda>p. None), stat = (\<lambda>p. None),
      readFile = (\<lambda>p. None), canEnsureDir = (\<lambda>p. True), canWriteFile = (\<lambda>p. True),
      now = (\<lambda>k. if k = 0 then ''2025-08-16T15:30:00.000Z''
                 else if k = 1 then ''2025-08-16T15:30:01.000Z''
                 else ''2025-08-16T15:30:02.000Z'')\<rparr>"

subsection \<open>The workflow name of a fragment\<close>

text \<open>
  A field whose value is falsy counts as absent. \<open>textOf v\<close> is the text of a value that is
  a string or falsy, the empty text when it is falsy; it is \<open>None\<close> for a truthy value that
  is not a string. \<open>chosenName\<close> is the name taken from the texts of the two fields, and
  \<open>normalizedName\<close> the normalization of a workflow name: \<open>_\<close> and \<open>-\<close> become spaces, the
  first character of each word is put in upper case, and the ends are trimmed; the name
  \<open>Unknown\<close> becomes \<open>Unknown Workflow\<close>.
\<close>

fun textOf :: "jsval \<Rightarrow> string option" where
  "textOf (JStr s) = Some s"
| "textOf v = (if truthy v then None else Some [])"

definition chosenName :: "string \<Rightarrow> string \<Rightarrow> string" where
  "chosenName name workflowId =
     (if workflowId \<noteq> [] then workflowId else if name \<noteq> [] then name else ''Unknown'')"

fun titleCase :: "bool \<Rightarrow> string \<Rightarrow> string" where
  \<comment> \<open>\<open>inWord\<close>: the character before is a character of a word\<close>
  "titleCase inWord [] = []"
| "titleCase inWord (c # s) =
     (if isWordChar c \<and> \<not> inWord then toUpperChar c else c) # titleCase (isWordChar c) s"

definition normalizedName :: "string \<Rightarrow> string" where
  "normalizedName name =
     (if name = ''Unknown'' then ''Unknown Workflow''
      else trim (titleCase False
             (map (\<lambda>c. if c = CHR ''_'' \<or> c = CHR ''-'' then CHR '' '' else c) name)))"

subsection \<open>The lines of a file\<close>

fun linesFrom :: "string \<Rightarrow> string \<Rightarrow> string list" where
  \<comment> \<open>\<open>line\<close>: the characters of the current line read so far\<close>
  "linesFrom line [] = (if line = [] then [] else [line])"
| "linesFrom line (c # s) = (if c = NL then line # linesFrom [] s else linesFrom (line @ [c]) s)"

definition fileLines :: "string \<Rightarrow> string list" where
  "fileLines content = linesFrom [] content"

definition timeNameObject :: jsobject where
  \<comment> \<open>the object that \<^verbatim>\<open>{"name":"typing\"\n\"10:15:42","message":"ok"}\<close> parses to\<close>
  "timeNameObject =
     [(''name'', JStr (''typing'' @ [DQ, NL, DQ] @ ''10:15:42'')), (''message'', JStr ''ok'')]"

definition timeNameText :: string where
  \<comment> \<open>the fragment \<^verbatim>\<open>{"name":"typing\"\n\"10:15:42","message":"ok"}\<close>, as it stands in a file\<close>
  "timeNameText =
     ''{'' @ [DQ] @ ''name'' @ [DQ] @ '':'' @ [DQ] @ ''typing'' @ [CHR 0x5C, DQ, CHR 0x5C]
     @ ''n'' @ [CHR 0x5C, DQ] @ ''10:15:42'' @ [DQ] @ '','' @ [DQ] @ ''message'' @ [DQ] @ '':''
     @ [DQ] @ ''ok'' @ [DQ] @ ''}''"

definition timeNameLine :: string where
  \<comment> \<open>the fragment between two letters, which keep its braces from the cleaner\<close>
  "timeNameLine = ''x'' @ timeNameText @ ''x''"

definition timeNameEntries :: "entry list" where
  \<comment> \<open>what the recoverer yields from \<open>timeNameLine\<close>\<close>
  "timeNameEntries =
     [Json timeNameObject timeNameText, LogEntry ''typing'' [] [] ''10:15:42'' timeNameLine]"

section \<open>The carver\<close>

lemma keepString_append: "keepString strings cur = strings @ keepString [] cur"
  by (simp add: keepString_def split: option.splits)

lemma keepString_Nil: "keepString strings [] = strings"
  by (simp add: keepString_def minStringLength_def)

lemma keepString_simple_append:
  "keepString_simple strings cur = strings @ keepString_simple [] cur"
  by (simp add: keepString_simple_def)

lemma keepString_simple_Nil: "keepString_simple strings [] = strings"
  by (simp add: keepString_simple_def)

lemma maximalRuns_split:
  "concat (map f (maximalRuns P bs)) =
     (if takeWhile P bs = [] then [] else f (takeWhile P bs))
     @ concat (map f (maximalRuns P (dropWhile P bs)))"
proof (cases bs)
  case Nil
  then show ?thesis by simp
next
  case (Cons b bs')
  then show ?thesis by (cases "P b") simp_all
qed

text \<open>The loop, started anywhere: the strings kept so far, then what the current run
  gives once it is complete, then what the runs after it give.\<close>

lemma extractCleanStrings_loop_runs:
  "extractCleanStrings_loop bs strings cur =
     strings @ keepString [] (cur @ map fromCharCode (takeWhile isPrintableByte bs))
     @ concat (map (\<lambda>r. keepString [] (map fromCharCode r))
         (maximalRuns isPrintableByte (dropWhile isPrintableByte bs)))"
proof (induction bs arbitrary: strings cur)
  case Nil
  show ?case using keepString_append [of strings cur] by (simp add: keepString_Nil)
next
  case (Cons b bs)
  let ?keep = "\<lambda>r. keepString [] (map fromCharCode r)"
  show ?case
  proof (cases "isPrintableByte b")
    case True
    then show ?thesis using Cons.IH [of strings "cur @ [fromCharCode b]"] by simp
  next
    case False
    have "extractCleanStrings_loop (b # bs) strings cur =
            extractCleanStrings_loop bs (keepString strings cur) []"
      using False by simp
    also have "\<dots> = keepString strings cur @ ?keep (takeWhile isPrintableByte bs)
        @ concat (map ?keep (maximalRuns isPrintableByte (dropWhile isPrintableByte bs)))"
      using Cons.IH [of "keepString strings cur" "[]"] by simp
    also have "\<dots> = strings @ keepString [] cur
        @ concat (map ?keep (maximalRuns isPrintableByte bs))"
      using maximalRuns_split [of ?keep isPrintableByte bs] keepString_append [of strings cur]
      by (simp add: keepString_Nil)
    finally show ?thesis using False by simp
  qed
qed

lemma extractStringsFromBuffer_loop_runs:
  "extractStringsFromBuffer_loop bs strings cur =
     strings
     @ keepString_simple [] (cur @ map fromCharCode (takeWhile isPrintableByte_simple bs))
     @ concat (map (\<lambda>r. keepString_simple [] (map fromCharCode r))
         (maximalRuns isPrintableByte_simple (dropWhile isPrintableByte_simple bs)))"
proof (induction bs arbitrary: strings cur)
  case Nil
  show ?case
    using keepString_simple_append [of strings cur] by (simp add: keepString_simple_Nil)
next
  case (Cons b bs)
  let ?keep = "\<lambda>r. keepString_simple [] (map fromCharCode r)"
  show ?case
  proof (cases "isPrintableByte_simple b")
    case True
    then show ?thesis using Cons.IH [of strings "cur @ [fromCharCode b]"] by simp
  next
    case False
    have "extractStringsFromBuffer_loop (b # bs) strings cur =
            extractStringsFromBuffer_loop bs (keepString_simple strings cur) []"
      using False by simp
    also have "\<dots> = keepString_simple strings cur @ ?keep (takeWhile isPrintableByte_simple bs)
        @ concat (map ?keep
            (maximalRuns isPrintableByte_simple (dropWhile isPrintableByte_simple bs)))"
      using Cons.IH [of "keepString_simple strings cur" "[]"] by simp
    also have "\<dots> = strings @ keepString_simple [] cur
        @ concat (map ?keep (maximalRuns isPrintableByte_simple bs))"
      using maximalRuns_split [of ?keep isPrintableByte_simple bs]
        keepString_simple_append [of strings cur]
      by (simp add: keepString_simple_Nil)
    finally show ?thesis using False by simp
  qed
qed

lemma keepString_validated:
  "concat (map (\<lambda>r. keepString [] (map fromCharCode r)) rs) =
     List.map_filter validated
       (filter (\<lambda>r. minStringLength \<le> length r) (map (map fromCharCode) rs))"
  by (induction rs)
     (simp_all add: keepString_def validated_def List.map_filter_simps split: option.splits)

lemma keepString_simple_filter:
  "concat (map (\<lambda>r. keepString_simple [] (map fromCharCode r)) rs) =
     filter (\<lambda>r. 3 < length r) (map (map fromCharCode) rs)"
  by (induction rs) (simp_all add: keepString_simple_def)

lemma extractCleanStrings_runs:
  "extractCleanStrings buffer =
     concat (map (\<lambda>r. keepString [] (map fromCharCode r))
       (maximalRuns isPrintableByte buffer))"
  unfolding extractCleanStrings_def
  using extractCleanStrings_loop_runs [of buffer "[]" "[]"]
    maximalRuns_split [of "\<lambda>r. keepString [] (map fromCharCode r)" isPrintableByte buffer]
  by (simp add: keepString_Nil)

lemma extractStringsFromBuffer_runs:
  "extractStringsFromBuffer buffer =
     filter hasSimpleKeyword
       (concat (map (\<lambda>r. keepString_simple [] (map fromCharCode r))
         (maximalRuns isPrintableByte_simple buffer)))"
  unfolding extractStringsFromBuffer_def
  using extractStringsFromBuffer_loop_runs [of buffer "[]" "[]"]
    maximalRuns_split [of "\<lambda>r. keepString_simple [] (map fromCharCode r)"
      isPrintableByte_simple buffer]
  by (simp add: keepString_simple_Nil)

text \<open>
  Claim C3, as the code has it. Every maximal run of printable bytes is taken once, in
  the order of the buffer, the run that ends the buffer included. The first variant
  does not return the runs verbatim: a run of \<open>minStringLength\<close> bytes or more goes through
  the cleaner and the relevance gate, and the result holds the cleaned text of the runs
  that pass. The second variant takes the bytes 32 to 126 only as printable and returns,
  verbatim, the runs of more than three bytes that hold one of its four keywords.
\<close>

theorem carver_output:
  "extractCleanStrings buffer =
     List.map_filter validated
       (filter (\<lambda>r. minStringLength \<le> length r)
         (map (map fromCharCode) (maximalRuns isPrintableByte buffer)))
   \<and> extractStringsFromBuffer buffer =
     filter hasSimpleKeyword
       (filter (\<lambda>r. 3 < length r)
         (map (map fromCharCode) (maximalRuns isPrintableByte_simple buffer)))"
  by (simp add: extractCleanStrings_runs keepString_validated
        extractStringsFromBuffer_runs keepString_simple_filter)

text \<open>
  Claim C3 as stated fails: the buffer that holds the three bytes of \<open>abc\<close> is one
  maximal printable run of the minimum length, and neither carver returns it.
\<close>

theorem carver_drops_run:
  "maximalRuns isPrintableByte (asciiBytes ''abc'') = [asciiBytes ''abc'']
   \<and> minStringLength \<le> length (asciiBytes ''abc'')
   \<and> map fromCharCode (asciiBytes ''abc'') = ''abc''
   \<and> ''abc'' \<notin> set (extractCleanStrings (asciiBytes ''abc''))
   \<and> ''abc'' \<notin> set (extractStringsFromBuffer (asciiBytes ''abc''))"
  by code_simp

section \<open>The line "Workflow started at 10:15:42 - success"\<close>

lemma workflowStartedLine_carved:
  "extractCleanStrings (asciiBytes workflowStartedLine) = [workflowStartedLine]"
  by code_simp

lemma workflowStartedLine_entry:
  "logEntryOf workflowStartedLine =
     [LogEntry ''Workflow'' [] ''started'' ''10:15:42'' workflowStartedLine]"
  by code_simp

lemma workflowStartedLine_no_brace: "\<not> includesStr workflowStartedLine ''{''"
  by code_simp

lemma workflowStartedLine_readable:
  "convertToHumanReadable
     [LogEntry ''Workflow'' [] ''started'' ''10:15:42'' workflowStartedLine] =
   Inr [\<lparr>workflow = ''Workflow'', log = ''At 10:15:42 - started''\<rparr>]"
  by code_simp

lemma workflowStartedLine_fields:
  "csvLogValue ''At 10:15:42 - started'' = ''At 10:15:42 - started''"
  "csvAction ''At 10:15:42 - started'' = ''started''"
  "csvStatus ''At 10:15:42 - started'' = ''started''"
  by code_simp+

text \<open>
  Claim C1, as the code has it. The line survives the carver, the cleaner and the gate
  unchanged. The recoverer captures the time token \<open>10:15:42\<close>, and as status token the
  status word that stands first in the line, which is \<open>started\<close>. The humanizer turns
  the entry into the log text \<open>At 10:15:42 - started\<close>, and the row of the combined file,
  written at any time \<open>ts\<close>, has the status \<open>started\<close> (and the action \<open>started\<close>).
\<close>

theorem workflow_started_line:
  "extractCleanStrings (asciiBytes workflowStartedLine) = [workflowStartedLine]
   \<and> extractStructuredData JSON_parse JSON_stringify [workflowStartedLine] =
       [LogEntry ''Workflow'' [] ''started'' ''10:15:42'' workflowStartedLine]
   \<and> convertToHumanReadable
         (extractStructuredData JSON_parse JSON_stringify [workflowStartedLine]) =
       Inr [\<lparr>workflow = ''Workflow'', log = ''At 10:15:42 - started''\<rparr>]
   \<and> combinedRow ts \<lparr>workflow = ''Workflow'', log = ''At 10:15:42 - started''\<rparr> =
       [DQ] @ ts @ [DQ] @ '','' @ [DQ] @ ''Workflow'' @ [DQ] @ '',''
       @ ''At 10:15:42 - started'' @ '','' @ [DQ] @ ''started'' @ [DQ] @ '','' @ [DQ]
       @ ''started'' @ [DQ] @ [NL]"
proof -
  have entries: "extractStructuredData JSON_parse JSON_stringify [workflowStartedLine] =
      [LogEntry ''Workflow'' [] ''started'' ''10:15:42'' workflowStartedLine]"
    using workflowStartedLine_no_brace
    by (simp add: extractStructuredData_def workflowStartedLine_entry)
  show ?thesis
    by (simp add: entries workflowStartedLine_carved workflowStartedLine_readable
          combinedRow_def workflowStartedLine_fields)
qed

text \<open>
  Claim C1 as stated fails: the status token captured for the line is not \<open>success\<close>,
  and neither is the status of its row.
\<close>

theorem workflow_started_line_status:
  "map statusToken (extractStructuredData (\<lambda>s. None) (\<lambda>d. []) [workflowStartedLine])
     \<noteq> [''success'']
   \<and> csvStatus ''At 10:15:42 - started'' \<noteq> ''success''"
  by code_simp

section \<open>The fragment {"name":"Typing Five","status":"done"}\<close>

lemma typingFive_workflow: "entryWorkflow (Json typingFiveObject r) = JStr ''Typing Five''"
  by (simp add: typingFiveObject_def field_def)

lemma typingFive_readable: "entryReadable (Json typingFiveObject r) = JStr '' (done)''"
  by (simp add: typingFiveObject_def field_def)

lemma typingFive_cleaned:
  "cleanWorkflowName (JStr ''Typing Five'') = Inr ''Typing Five''"
  "cleanLogEntry (JStr '' (done)'') = Inr ''(done)''"
  by code_simp+

text \<open>
  Claim C6, as the code has it. The fragment is emitted, not dropped, with the workflow
  name \<open>Typing Five\<close>. The append-status rule produces the text \<open> (done)\<close> with its
  leading space, since no message seeds it; the log text of the record is that text after
  the cleaning of log texts, which trims it: \<open>(done)\<close>.
\<close>

theorem typing_five_record:
  "entryReadable (Json typingFiveObject r) = JStr '' (done)''
   \<and> convertToHumanReadable [Json typingFiveObject r] =
       Inr [\<lparr>workflow = ''Typing Five'', log = ''(done)''\<rparr>]"
  by (simp add: convertToHumanReadable_def typingFive_workflow typingFive_readable
        typingFive_cleaned
        del: entryWorkflow.simps entryReadable.simps cleanWorkflowName.simps
          cleanLogEntry.simps)

text \<open>Claim C6 as stated fails: the log text of the record is not \<open> (done)\<close>.\<close>

theorem typing_five_log_text:
  "convertToHumanReadable [Json typingFiveObject typingFiveText]
     \<noteq> Inr [\<lparr>workflow = ''Typing Five'', log = '' (done)''\<rparr>]"
  by code_simp

section \<open>A run that finds no source\<close>

lemma findChromeProfiles_empty:
  "findChromeProfiles e = [] \<longleftrightarrow> (\<forall>p \<in> set (possiblePaths e). \<not> pathExists e p)"
proof -
  have "findChromeProfiles e = [] \<longleftrightarrow> filter (pathExists e) (possiblePaths e) = []"
    by (cases "filter (pathExists e) (possiblePaths e)") (simp_all add: findChromeProfiles_def)
  then show ?thesis by (simp add: filter_empty_conv)
qed

lemma findIndexedDBDirs_empty:
  "findIndexedDBDirs e ps = [] \<longleftrightarrow>
     (\<forall>p \<in> set ps. \<not> pathExists e (path_join [p, ''Default'', ''IndexedDB'']))"
  by (auto simp: findIndexedDBDirs_def filter_empty_conv)

lemma findAutomaExtensions_empty:
  "findAutomaExtensions e ds = [] \<longleftrightarrow>
     (\<forall>d \<in> set ds. \<forall>contents. readdir e d = Some contents \<longrightarrow>
        (\<forall>item \<in> set contents.
           \<not> (startsWith item ''chrome-extension_'' \<and> endsWith item ''.indexeddb.leveldb'')))"
  by (auto simp: findAutomaExtensions_def filter_empty_conv split: option.splits)

text \<open>
  Claim C9. When the locator finds no profile directory, no IndexedDB directory or no
  extension database, the run returns without an exception and without a list of files,
  the state is the one it started in (no directory ensured, no file written, no reading
  of the clock), and the process ends with the exit code 0.
\<close>

theorem run_discovery_miss:
  assumes "findChromeProfiles e = []
     \<or> findIndexedDBDirs e (findChromeProfiles e) = []
     \<or> findAutomaExtensions e (findIndexedDBDirs e (findChromeProfiles e)) = []"
  shows "run e JSON_parse JSON_stringify st = (Inr None, st)
     \<and> exitCode (fst (run e JSON_parse JSON_stringify st)) = 0"
proof -
  have "run e JSON_parse JSON_stringify st = (Inr None, st)"
    using assms by (auto simp: run_def Let_def)
  then show ?thesis by (simp add: exitCode_def)
qed

theorem run_discovery_miss_witness:
  "run \<lparr>cwd = ''/home'', pathExists = (\<lambda>p. False), readdir = (\<lambda>p. None),
        stat = (\<lambda>p. None), readFile = (\<lambda>p. None), canEnsureDir = (\<lambda>p. True),
        canWriteFile = (\<lambda>p. True), now = (\<lambda>k. [])\<rparr>
       (\<lambda>s. None) (\<lambda>d. []) \<lparr>ensured = [], written = [], ticks = 0\<rparr>
     = (Inr None, \<lparr>ensured = [], written = [], ticks = 0\<rparr>)
   \<and> exitCode (fst (run \<lparr>cwd = ''/home'', pathExists = (\<lambda>p. False), readdir = (\<lambda>p. None),
        stat = (\<lambda>p. None), readFile = (\<lambda>p. None), canEnsureDir = (\<lambda>p. True),
        canWriteFile = (\<lambda>p. True), now = (\<lambda>k. [])\<rparr>
       (\<lambda>s. None) (\<lambda>d. []) \<lparr>ensured = [], written = [], ticks = 0\<rparr>)) = 0"
proof -
  let ?e = "\<lparr>cwd = ''/home'', pathExists = (\<lambda>p. False), readdir = (\<lambda>p. None),
        stat = (\<lambda>p. None), readFile = (\<lambda>p. None), canEnsureDir = (\<lambda>p. True),
        canWriteFile = (\<lambda>p. True), now = (\<lambda>k. [])\<rparr>"
  have miss: "findChromeProfiles ?e = []"
    by (simp add: findChromeProfiles_def)
  show ?thesis
    using run_discovery_miss [of ?e "\<lambda>s. None" "\<lambda>d. []" "\<lparr>ensured = [], written = [], ticks = 0\<rparr>"]
      miss
    by blast
qed

section \<open>Null bytes in the cleaner\<close>

text \<open>From here on the equations of the three scanning functions are unfolded by hand.\<close>

declare re_replace_from.simps [simp del]
declare re_search.simps [simp del]
declare re_matches_from.simps [simp del]

lemma isNul_iff: "isNul c \<longleftrightarrow> c = CHR 0x00"
proof -
  have "charCode c = 0 \<longleftrightarrow> (of_char c :: nat) = of_char (CHR 0x00)" by (simp add: charCode_def)
  then show ?thesis unfolding isNul_def by (simp only: of_char_eq_iff)
qed

lemma re_plus_Nil: "re_plus P prev [] = None"
  by (simp add: re_plus_def)

lemma re_plus_no: "\<not> P c \<Longrightarrow> re_plus P prev (c # cs) = None"
  by (simp add: re_plus_def)

lemma re_plus_yes: "P c \<Longrightarrow> re_plus P prev (c # cs) = Some (Suc (length (takeWhile P cs)))"
  by (simp add: re_plus_def)

lemma replace_plus_Nil: "re_replace_from (re_plus P) f prev [] = []"
  by (simp add: re_plus_Nil re_replace_from.simps)

lemma replace_plus_no_prev:
  "\<not> P c \<Longrightarrow> re_replace_from (re_plus P) f prev (c # cs) = c # re_replace_from (re_plus P) f (Some c) cs"
  by (simp add: re_plus_no re_replace_from.simps)

lemma replace_plus_yes_prev:
  assumes "P c"
  shows "re_replace_from (re_plus P) f prev (c # cs) =
     f (c # takeWhile P cs) @ re_replace_from (re_plus P) f (Some (last (c # takeWhile P cs))) (dropWhile P cs)"
proof -
  have t: "take (length (takeWhile P cs)) cs = takeWhile P cs"
    using takeWhile_eq_take [of P cs] by simp
  have d: "drop (length (takeWhile P cs)) cs = dropWhile P cs"
    using dropWhile_eq_drop [of P cs] by simp
  show ?thesis using assms by (simp add: re_plus_yes t d re_replace_from.simps)
qed

lemma replace_plus_prev:
  "re_replace_from (re_plus P) f prev s = re_replace_from (re_plus P) f None s"
proof (cases s)
  case Nil
  then show ?thesis by (simp add: replace_plus_Nil)
next
  case (Cons c cs)
  show ?thesis
  proof (cases "P c")
    case True
    show ?thesis unfolding Cons
      using True replace_plus_yes_prev [of P c f prev cs] replace_plus_yes_prev [of P c f None cs]
      by simp
  next
    case False
    show ?thesis unfolding Cons
      using False replace_plus_no_prev [of P c f prev cs] replace_plus_no_prev [of P c f None cs]
      by simp
  qed
qed

lemma replace_plus_no:
  "\<not> P c \<Longrightarrow> re_replace_from (re_plus P) f prev (c # cs) = c # re_replace_from (re_plus P) f None cs"
  using replace_plus_no_prev [of P c f prev cs] replace_plus_prev [of P f "Some c" cs] by simp

lemma replace_plus_yes:
  "P c \<Longrightarrow> re_replace_from (re_plus P) f prev (c # cs) =
     f (c # takeWhile P cs) @ re_replace_from (re_plus P) f None (dropWhile P cs)"
  using replace_plus_yes_prev [of P c f prev cs]
    replace_plus_prev [of P f "Some (last (c # takeWhile P cs))" "dropWhile P cs"] by simp

lemma squeezeNuls_Cons: "\<exists>r. squeezeNuls (b # s) = b # r"
proof (induction s arbitrary: b)
  case Nil
  show ?case by simp
next
  case (Cons a s)
  show ?case
  proof (cases "isNul b \<and> isNul a")
    case True
    then have "a = b" by (simp add: isNul_iff)
    then show ?thesis using True Cons [of a] by simp
  next
    case False
    then show ?thesis by auto
  qed
qed

lemma squeezeNuls_Nil_iff: "squeezeNuls s = [] \<longleftrightarrow> s = []"
proof (cases s)
  case Nil
  then show ?thesis by simp
next
  case (Cons b s')
  then show ?thesis using squeezeNuls_Cons [of b s'] by auto
qed

lemma replace_squeezeNuls:
  "re_replace_from (re_plus isNul) (\<lambda>m. rep) prev (squeezeNuls s) =
   re_replace_from (re_plus isNul) (\<lambda>m. rep) prev s"
proof (induction s arbitrary: prev rule: squeezeNuls.induct)
  case (1 a b s)
  let ?R = "re_replace_from (re_plus isNul) (\<lambda>m. rep)"
  obtain r where r: "squeezeNuls (b # s) = b # r" using squeezeNuls_Cons by blast
  show ?case
  proof (cases "isNul a \<and> isNul b")
    case True
    have "?R prev (squeezeNuls (a # b # s)) = ?R prev (b # s)"
      using True 1 by simp
    also have "\<dots> = rep @ ?R None (dropWhile isNul s)"
      using True by (simp add: replace_plus_yes)
    also have "\<dots> = ?R prev (a # b # s)"
      using True by (simp add: replace_plus_yes)
    finally show ?thesis .
  next
    case False
    then have sq: "squeezeNuls (a # b # s) = a # squeezeNuls (b # s)" by auto
    have IH: "?R None (squeezeNuls (b # s)) = ?R None (b # s)" using False 1 by blast
    show ?thesis
    proof (cases "isNul a")
      case True
      then have nb: "\<not> isNul b" using False by simp
      have "?R prev (a # squeezeNuls (b # s)) = rep @ ?R None (squeezeNuls (b # s))"
        using True nb r by (simp add: replace_plus_yes)
      moreover have "?R prev (a # b # s) = rep @ ?R None (b # s)"
        using True nb by (simp add: replace_plus_yes)
      ultimately show ?thesis using sq IH by simp
    next
      case na: False
      then show ?thesis using sq IH by (simp add: replace_plus_no)
    qed
  qed
qed simp_all

text \<open>
  Claim C7, as the code has it. The cleaner turns every run of null bytes into one space,
  so two candidate strings that differ only in the lengths of their runs of null bytes
  (each run is there in both, with one null byte or more) are cleaned to the same result.
\<close>

theorem null_run_normalization:
  assumes "squeezeNuls s = squeezeNuls t"
  shows "cleanExtractedString s = cleanExtractedString t"
proof -
  have e: "s = [] \<longleftrightarrow> t = []"
    using assms squeezeNuls_Nil_iff by metis
  have "re_replace_all (re_plus isNul) (\<lambda>_. '' '') s
      = re_replace_all (re_plus isNul) (\<lambda>_. '' '') t"
    unfolding re_replace_all_def
    using replace_squeezeNuls [of "'' ''" None s] replace_squeezeNuls [of "'' ''" None t] assms
    by simp
  then show ?thesis using e by (simp add: cleanExtractedString_def)
qed

theorem null_run_normalization_witness:
  "squeezeNuls (''ab'' @ [CHR 0x00] @ ''cd'')
     = squeezeNuls (''ab'' @ [CHR 0x00, CHR 0x00, CHR 0x00] @ ''cd'')
   \<and> cleanExtractedString (''ab'' @ [CHR 0x00] @ ''cd'')
     = cleanExtractedString (''ab'' @ [CHR 0x00, CHR 0x00, CHR 0x00] @ ''cd'')"
proof -
  have h: "squeezeNuls (''ab'' @ [CHR 0x00] @ ''cd'')
      = squeezeNuls (''ab'' @ [CHR 0x00, CHR 0x00, CHR 0x00] @ ''cd'')"
    by code_simp
  from h null_run_normalization [OF h] show ?thesis by (rule conjI)
qed

text \<open>
  Claim C7 as stated fails: \<open>abc\<close>, a null byte, \<open>def\<close> and \<open>abcdef\<close> differ only by an
  embedded null byte, and the cleaner keeps a space in the first.
\<close>

theorem null_byte_leaves_space:
  "withoutNuls (''abc'' @ [CHR 0x00] @ ''def'') = withoutNuls ''abcdef''
   \<and> cleanExtractedString (''abc'' @ [CHR 0x00] @ ''def'') = Some ''abc def''
   \<and> cleanExtractedString ''abcdef'' = Some ''abcdef''"
  by code_simp

section \<open>Searching with a regular expression\<close>


lemma charBefore_Nil: "charBefore prev [] = prev"
  by (simp add: charBefore_def)

lemma charBefore_Cons: "charBefore prev (c # pre) = charBefore (Some c) pre"
  by (simp add: charBefore_def)

lemma re_search_None_iff:
  "re_search m prev s = None \<longleftrightarrow>
     (\<forall>pre post. s = pre @ post \<longrightarrow> m (charBefore prev pre) post = None)"
proof (induction s arbitrary: prev)
  case Nil
  show ?case by (simp add: re_search.simps charBefore_Nil split: option.splits)
next
  case (Cons c cs)
  have "re_search m prev (c # cs) = None \<longleftrightarrow>
      m prev (c # cs) = None \<and> re_search m (Some c) cs = None"
    by (simp add: re_search.simps split: option.splits)
  also have "\<dots> \<longleftrightarrow> m prev (c # cs) = None \<and>
      (\<forall>pre post. cs = pre @ post \<longrightarrow> m (charBefore (Some c) pre) post = None)"
    using Cons.IH [of "Some c"] by simp
  also have "\<dots> \<longleftrightarrow> (\<forall>pre post. c # cs = pre @ post \<longrightarrow> m (charBefore prev pre) post = None)"
  proof
    assume a: "m prev (c # cs) = None \<and>
      (\<forall>pre post. cs = pre @ post \<longrightarrow> m (charBefore (Some c) pre) post = None)"
    show "\<forall>pre post. c # cs = pre @ post \<longrightarrow> m (charBefore prev pre) post = None"
    proof (intro allI impI)
      fix pre post
      assume e: "c # cs = pre @ post"
      show "m (charBefore prev pre) post = None"
      proof (cases pre)
        case Nil
        then show ?thesis using a e by (simp add: charBefore_Nil)
      next
        case (Cons d pre')
        then show ?thesis using a e by (simp add: charBefore_Cons)
      qed
    qed
  next
    assume b: "\<forall>pre post. c # cs = pre @ post \<longrightarrow> m (charBefore prev pre) post = None"
    have "m prev (c # cs) = None" using b [rule_format, of "[]" "c # cs"] by (simp add: charBefore_Nil)
    moreover have "\<forall>pre post. cs = pre @ post \<longrightarrow> m (charBefore (Some c) pre) post = None"
    proof (intro allI impI)
      fix pre post
      assume "cs = pre @ post"
      then show "m (charBefore (Some c) pre) post = None"
        using b [rule_format, of "c # pre" post] by (simp add: charBefore_Cons)
    qed
    ultimately show "m prev (c # cs) = None \<and>
      (\<forall>pre post. cs = pre @ post \<longrightarrow> m (charBefore (Some c) pre) post = None)" by simp
  qed
  finally show ?case .
qed

lemma re_test_iff:
  "re_test m s \<longleftrightarrow> (\<exists>pre post. s = pre @ post \<and> m (charBefore None pre) post \<noteq> None)"
  unfolding re_test_def re_search_None_iff by simp


lemma includesStr_sublist: "includesStr s t \<longleftrightarrow> sublist t s"
  by (induction s) (simp_all add: sublist_Cons_right)

lemma includesStr_char: "includesStr s [c] \<longleftrightarrow> c \<in> set s"
  by (induction s) auto

section \<open>The relevance gate\<close>


lemma hasAlphaRun_iff: "hasAlphaRun k s \<longleftrightarrow> re_test (re_at_least k isAlpha) s"
proof
  assume "hasAlphaRun k s"
  then obtain pre r post where p: "s = pre @ r @ post" "k \<le> length r" "list_all isAlpha r"
    unfolding hasAlphaRun_def by blast
  have "takeWhile isAlpha (r @ post) = r @ takeWhile isAlpha post"
    using p(3) by (simp add: list_all_iff)
  then have "re_at_least k isAlpha (charBefore None pre) (r @ post) \<noteq> None"
    using p(2) by (simp add: re_at_least_def)
  then show "re_test (re_at_least k isAlpha) s"
    unfolding re_test_iff using p(1) by blast
next
  assume "re_test (re_at_least k isAlpha) s"
  then obtain pre post where p: "s = pre @ post"
      "re_at_least k isAlpha (charBefore None pre) post \<noteq> None"
    unfolding re_test_iff by blast
  have k: "k \<le> length (takeWhile isAlpha post)"
    using p(2) by (simp add: re_at_least_def split: if_splits)
  have "s = pre @ takeWhile isAlpha post @ dropWhile isAlpha post" using p(1) by simp
  moreover have "list_all isAlpha (takeWhile isAlpha post)"
    by (simp add: list_all_iff) (meson set_takeWhileD)
  ultimately show "hasAlphaRun k s" unfolding hasAlphaRun_def using k by blast
qed

lemma hasAlphaRun_length: "hasAlphaRun k s \<Longrightarrow> k \<le> length s"
  unfolding hasAlphaRun_def by auto

lemma digitsThen_Some:
  "digitsThen k x = Some r \<longleftrightarrow> (\<exists>d. x = d @ r \<and> length d = k \<and> list_all isDigit d)"
proof
  assume "digitsThen k x = Some r"
  then have a: "k \<le> length x" "list_all isDigit (take k x)" "r = drop k x"
    by (auto simp: digitsThen_def split: if_splits)
  then have "x = take k x @ r \<and> length (take k x) = k \<and> list_all isDigit (take k x)" by simp
  then show "\<exists>d. x = d @ r \<and> length d = k \<and> list_all isDigit d" by blast
next
  assume "\<exists>d. x = d @ r \<and> length d = k \<and> list_all isDigit d"
  then obtain d where "x = d @ r" "length d = k" "list_all isDigit d" by blast
  then show "digitsThen k x = Some r" by (simp add: digitsThen_def)
qed

lemma colonThen_Some: "colonThen x = Some r \<longleftrightarrow> x = CHR '':'' # r"
  by (cases x) (auto simp: colonThen_def)

lemma time_chain:
  "Option.bind (digitsThen k x) (\<lambda>r. Option.bind (colonThen r) (\<lambda>r. Option.bind (digitsThen 2 r)
      (\<lambda>r. Option.bind (colonThen r) (digitsThen 2)))) = Some rest
   \<longleftrightarrow> (\<exists>h m sec. x = h @ '':'' @ m @ '':'' @ sec @ rest \<and> length h = k \<and> length m = 2
          \<and> length sec = 2 \<and> list_all isDigit (h @ m @ sec))"
  (is "?L \<longleftrightarrow> ?R")
proof
  assume ?L
  then obtain r1 r2 r3 r4 where
    a: "digitsThen k x = Some r1" "colonThen r1 = Some r2" "digitsThen 2 r2 = Some r3"
       "colonThen r3 = Some r4" "digitsThen 2 r4 = Some rest"
    by (auto simp: bind_eq_Some_conv)
  from a(1) obtain h where h: "x = h @ r1" "length h = k" "list_all isDigit h"
    unfolding digitsThen_Some by blast
  from a(3) obtain m where m: "r2 = m @ r3" "length m = 2" "list_all isDigit m"
    unfolding digitsThen_Some by blast
  from a(5) obtain sec where s: "r4 = sec @ rest" "length sec = 2" "list_all isDigit sec"
    unfolding digitsThen_Some by blast
  have "x = h @ '':'' @ m @ '':'' @ sec @ rest"
    using h(1) m(1) s(1) a(2) a(4) by (simp add: colonThen_Some)
  then show ?R using h m s by auto
next
  assume ?R
  then obtain h m sec where
    r: "x = h @ '':'' @ m @ '':'' @ sec @ rest" "length h = k" "length m = 2"
       "length sec = 2" "list_all isDigit (h @ m @ sec)"
    by blast
  have 1: "digitsThen k x = Some ('':'' @ m @ '':'' @ sec @ rest)"
    unfolding digitsThen_Some using r by auto
  have 2: "colonThen ('':'' @ m @ '':'' @ sec @ rest) = Some (m @ '':'' @ sec @ rest)"
    by (simp add: colonThen_Some)
  have 3: "digitsThen 2 (m @ '':'' @ sec @ rest) = Some ('':'' @ sec @ rest)"
    unfolding digitsThen_Some using r by auto
  have 4: "colonThen ('':'' @ sec @ rest) = Some (sec @ rest)"
    by (simp add: colonThen_Some)
  have 5: "digitsThen 2 (sec @ rest) = Some rest"
    unfolding digitsThen_Some using r by auto
  show ?L using 1 2 3 4 5 by simp
qed

lemma re_time_iff:
  "re_time prev x \<noteq> None \<longleftrightarrow> (\<exists>t rest. x = t @ rest \<and> isTimeToken t)"
proof -
  let ?chain = "\<lambda>k. Option.bind (digitsThen k x) (\<lambda>r. Option.bind (colonThen r)
      (\<lambda>r. Option.bind (digitsThen 2 r) (\<lambda>r. Option.bind (colonThen r) (digitsThen 2))))"
  have "re_time prev x \<noteq> None \<longleftrightarrow> ?chain 2 \<noteq> None \<or> ?chain 1 \<noteq> None"
    by (simp add: re_time_def Let_def split: option.splits)
  also have "\<dots> \<longleftrightarrow> (\<exists>rest. ?chain 2 = Some rest) \<or> (\<exists>rest. ?chain 1 = Some rest)"
    by auto
  also have "\<dots> \<longleftrightarrow> (\<exists>rest k. (k = 1 \<or> k = 2) \<and> (\<exists>h m sec. x = h @ '':'' @ m @ '':'' @ sec @ rest
      \<and> length h = k \<and> length m = 2 \<and> length sec = 2 \<and> list_all isDigit (h @ m @ sec)))"
    unfolding time_chain by blast
  also have "\<dots> \<longleftrightarrow> (\<exists>t rest. x = t @ rest \<and> isTimeToken t)" (is "?A \<longleftrightarrow> ?B")
  proof
    assume ?A
    then obtain rest k h m sec where
      a: "k = 1 \<or> k = 2" "x = h @ '':'' @ m @ '':'' @ sec @ rest" "length h = k"
         "length m = 2" "length sec = 2" "list_all isDigit (h @ m @ sec)"
      by blast
    have "isTimeToken (h @ '':'' @ m @ '':'' @ sec)"
      unfolding isTimeToken_def using a by blast
    moreover have "x = (h @ '':'' @ m @ '':'' @ sec) @ rest" using a(2) by simp
    ultimately show ?B by blast
  next
    assume ?B
    then obtain t rest where b: "x = t @ rest" "isTimeToken t" by blast
    from b(2) obtain h m sec where
      c: "t = h @ '':'' @ m @ '':'' @ sec" "length h = 1 \<or> length h = 2" "length m = 2"
         "length sec = 2" "list_all isDigit (h @ m @ sec)"
      unfolding isTimeToken_def by blast
    have "x = h @ '':'' @ m @ '':'' @ sec @ rest" using b(1) c(1) by simp
    then show ?A using c by blast
  qed
  finally show ?thesis .
qed

lemma containsTime_iff: "containsTime s \<longleftrightarrow> re_test re_time s"
proof
  assume "containsTime s"
  then obtain pre t post where "s = pre @ t @ post" "isTimeToken t"
    unfolding containsTime_def by blast
  then have "s = pre @ (t @ post) \<and> re_time (charBefore None pre) (t @ post) \<noteq> None"
    unfolding re_time_iff by blast
  then show "re_test re_time s" unfolding re_test_iff by blast
next
  assume "re_test re_time s"
  then obtain pre post where p: "s = pre @ post" "re_time (charBefore None pre) post \<noteq> None"
    unfolding re_test_iff by blast
  from p(2) obtain t rest where "post = t @ rest" "isTimeToken t"
    unfolding re_time_iff by blast
  then show "containsTime s" unfolding containsTime_def using p(1) by blast
qed

subsection \<open>Letters and their case\<close>

lemma lower_not_upper: "isLower c \<Longrightarrow> \<not> isUpper c"
  by (simp add: isLower_def isUpper_def)

lemma toLowerChar_not_upper: "\<not> isUpper (toLowerChar c)"
proof (cases "isUpper c")
  case True
  then have "charCode (char_of (charCode c + 32)) = charCode c + 32"
    by (simp add: charCode_def isUpper_def)
  then show ?thesis using True by (simp add: toLowerChar_def isUpper_def)
next
  case False
  then show ?thesis by (simp add: toLowerChar_def)
qed

lemma toLowerChar_lower: "isLower c \<Longrightarrow> toLowerChar c = c"
  by (simp add: toLowerChar_def lower_not_upper)

lemma toLowerCase_lower: "list_all isLower w \<Longrightarrow> toLowerCase w = w"
  by (induction w) (simp_all add: toLowerCase_def toLowerChar_lower)

lemma lower_image_alpha: "isLower (toLowerChar c) \<Longrightarrow> isAlpha c"
  by (cases "isUpper c") (simp_all add: toLowerChar_def isAlpha_def)

lemma lower_image_word:
  "toLowerCase u = w \<Longrightarrow> list_all isLower w \<Longrightarrow> list_all isWordChar u"
proof (induction u arbitrary: w)
  case Nil
  show ?case by simp
next
  case (Cons c u)
  then obtain w' where w: "w = toLowerChar c # w'" "toLowerCase u = w'"
    by (auto simp: toLowerCase_def)
  then have "isLower (toLowerChar c)" "list_all isLower w'" using Cons.prems(2) by simp_all
  then show ?case using Cons.IH [OF w(2)] lower_image_alpha [of c]
    by (simp add: isWordChar_def isAlnum_def)
qed

lemma toLowerCase_no_upper: "isUpper c \<Longrightarrow> c \<notin> set (toLowerCase s)"
  using toLowerChar_not_upper by (auto simp: toLowerCase_def)

lemma toLowerCase_length: "length (toLowerCase s) = length s"
  by (simp add: toLowerCase_def)

subsection \<open>Literals under the flag i\<close>

lemma prefix_ci_iff:
  "prefix_ci w x \<longleftrightarrow>
     (\<exists>u rest. x = u @ rest \<and> length u = length w \<and> toLowerCase u = toLowerCase w)"
proof (induction w x rule: prefix_ci.induct)
  case (1 s)
  show ?case by (simp add: toLowerCase_def)
next
  case (2 a w)
  show ?case by (simp add: toLowerCase_def)
next
  case (3 a w c s)
  show ?case
  proof
    assume "prefix_ci (a # w) (c # s)"
    then have h: "toLowerChar c = toLowerChar a" "prefix_ci w s" by simp_all
    then obtain u rest where "s = u @ rest" "length u = length w" "toLowerCase u = toLowerCase w"
      using 3 by blast
    then have "c # s = (c # u) @ rest \<and> length (c # u) = length (a # w)
        \<and> toLowerCase (c # u) = toLowerCase (a # w)"
      using h(1) by (simp add: toLowerCase_def)
    then show "\<exists>u rest. c # s = u @ rest \<and> length u = length (a # w)
        \<and> toLowerCase u = toLowerCase (a # w)" by blast
  next
    assume "\<exists>u rest. c # s = u @ rest \<and> length u = length (a # w)
        \<and> toLowerCase u = toLowerCase (a # w)"
    then obtain u rest where u: "c # s = u @ rest" "length u = length (a # w)"
        "toLowerCase u = toLowerCase (a # w)" by blast
    then obtain u' where u': "u = c # u'" by (cases u) auto
    then have "s = u' @ rest" "length u' = length w" "toLowerCase u' = toLowerCase w"
        "toLowerChar c = toLowerChar a"
      using u by (simp_all add: toLowerCase_def)
    then show "prefix_ci (a # w) (c # s)" using 3 by auto
  qed
qed

subsection \<open>Whole words\<close>

lemma wordBoundary_start:
  "u \<noteq> [] \<Longrightarrow> isWordChar (hd u) \<Longrightarrow>
   wordBoundary prev (u @ rest) \<longleftrightarrow> \<not> (case prev of None \<Rightarrow> False | Some c \<Rightarrow> isWordChar c)"
  by (cases u) (simp_all add: wordBoundary_def)

lemma wordBoundary_end:
  "isWordChar c \<Longrightarrow> wordBoundary (Some c) rest \<longleftrightarrow> rest = [] \<or> \<not> isWordChar (hd rest)"
  by (cases rest) (simp_all add: wordBoundary_def)

lemma charBefore_word:
  "(case charBefore None pre of None \<Rightarrow> False | Some c \<Rightarrow> isWordChar c)
     \<longleftrightarrow> pre \<noteq> [] \<and> isWordChar (last pre)"
  by (simp add: charBefore_def)

lemma word_at_iff:
  assumes "w \<noteq> []" "list_all isLower w"
  shows "wordBoundary prev x \<and> prefix_ci w x
       \<and> wordBoundary (if w = [] then prev else Some (last (take (length w) x)))
            (drop (length w) x)
     \<longleftrightarrow> wordHere w prev x"
  (is "?L \<longleftrightarrow> ?R")
proof
  assume l: ?L
  then obtain u rest where u: "x = u @ rest" "length u = length w" "toLowerCase u = w"
    using assms(2) by (auto simp: prefix_ci_iff toLowerCase_lower)
  have ne: "u \<noteq> []" using u(2) assms(1) by auto
  have wc: "list_all isWordChar u" using lower_image_word [OF u(3) assms(2)] .
  have hd: "isWordChar (hd u)" using ne wc by (cases u) simp_all
  have la: "isWordChar (last u)" using ne wc by (simp add: list_all_iff)
  have "\<not> (case prev of None \<Rightarrow> False | Some c \<Rightarrow> isWordChar c)"
    using l u(1) wordBoundary_start [OF ne hd, of prev rest] by simp
  moreover have "rest = [] \<or> \<not> isWordChar (hd rest)"
    using l u(1) u(2) assms(1) wordBoundary_end [OF la, of rest] by simp
  ultimately show ?R unfolding wordHere_def using u by blast
next
  assume ?R
  then obtain u rest where u: "x = u @ rest" "toLowerCase u = w"
      "\<not> (case prev of None \<Rightarrow> False | Some c \<Rightarrow> isWordChar c)"
      "rest = [] \<or> \<not> isWordChar (hd rest)"
    unfolding wordHere_def by blast
  have len: "length u = length w" using u(2) toLowerCase_length [of u] by simp
  have ne: "u \<noteq> []" using len assms(1) by auto
  have wc: "list_all isWordChar u" using lower_image_word [OF u(2) assms(2)] .
  have hd: "isWordChar (hd u)" using ne wc by (cases u) simp_all
  have la: "isWordChar (last u)" using ne wc by (simp add: list_all_iff)
  have 1: "wordBoundary prev x" using u(1) u(3) wordBoundary_start [OF ne hd, of prev rest] by simp
  have 2: "prefix_ci w x"
    unfolding prefix_ci_iff using u(1) u(2) len assms(2) by (auto simp: toLowerCase_lower)
  have 3: "wordBoundary (if w = [] then prev else Some (last (take (length w) x)))
            (drop (length w) x)"
    using u(1) u(4) len assms(1) wordBoundary_end [OF la, of rest] by simp
  show ?L using 1 2 3 by simp
qed

lemma re_alt_word_ci_step:
  assumes "w \<noteq> []" "list_all isLower w"
  shows "re_alt_word_ci (w # ws) prev x =
     (if wordHere w prev x then Some (length w) else re_alt_word_ci ws prev x)"
  by (subst re_alt_word_ci.simps) (simp only: word_at_iff [OF assms])

lemma wordHere_length: "wordHere w prev x \<Longrightarrow> length w \<le> length x"
  unfolding wordHere_def using toLowerCase_length by fastforce


lemma re_alt_word_ci_None:
  assumes "\<forall>w \<in> set ws. w \<noteq> [] \<and> list_all isLower w"
  shows "re_alt_word_ci ws prev x = None \<longleftrightarrow> (\<forall>w \<in> set ws. \<not> wordHere w prev x)"
  using assms
proof (induction ws)
  case Nil
  show ?case by simp
next
  case (Cons w ws)
  have good: "w \<noteq> []" "list_all isLower w" using Cons.prems by simp_all
  have IH: "re_alt_word_ci ws prev x = None \<longleftrightarrow> (\<forall>v \<in> set ws. \<not> wordHere v prev x)"
    using Cons.IH Cons.prems by simp
  show ?case unfolding re_alt_word_ci_step [OF good] using IH by simp
qed

lemma wordHere_occurs:
  "wordHere w (charBefore None pre) x \<longleftrightarrow>
     (\<exists>u post. x = u @ post \<and> toLowerCase u = w \<and> wholeWordBetween pre post)"
  unfolding wordHere_def wholeWordBetween_def charBefore_word by simp

lemma occursAsWord_iff:
  assumes "\<forall>w \<in> set ws. w \<noteq> [] \<and> list_all isLower w"
  shows "occursAsWord ws s \<longleftrightarrow> re_test (re_alt_word_ci ws) s"
proof
  assume "occursAsWord ws s"
  then obtain pre u post where
    o: "s = pre @ u @ post" "toLowerCase u \<in> set ws" "wholeWordBetween pre post"
    unfolding occursAsWord_def by blast
  then have "wordHere (toLowerCase u) (charBefore None pre) (u @ post)"
    unfolding wordHere_occurs by blast
  then have "re_alt_word_ci ws (charBefore None pre) (u @ post) \<noteq> None"
    unfolding re_alt_word_ci_None [OF assms] using o(2) by blast
  then show "re_test (re_alt_word_ci ws) s"
    unfolding re_test_iff using o(1) by blast
next
  assume "re_test (re_alt_word_ci ws) s"
  then obtain pre x where p: "s = pre @ x" "re_alt_word_ci ws (charBefore None pre) x \<noteq> None"
    unfolding re_test_iff by blast
  then obtain w where w: "w \<in> set ws" "wordHere w (charBefore None pre) x"
    unfolding re_alt_word_ci_None [OF assms] by blast
  then obtain u post where "x = u @ post" "toLowerCase u = w" "wholeWordBetween pre post"
    unfolding wordHere_occurs by blast
  then show "occursAsWord ws s"
    unfolding occursAsWord_def using p(1) w(1) by blast
qed

lemma levelWords_good: "\<forall>w \<in> set levelWords. w \<noteq> [] \<and> list_all isLower w"
  by (simp add: levelWords_def isLower_def charCode_def)

lemma no_capital_I: "CHR ''I'' \<in> set t \<Longrightarrow> \<not> sublist t (toLowerCase s)"
proof
  assume a: "CHR ''I'' \<in> set t" "sublist t (toLowerCase s)"
  have "isUpper (CHR ''I'')" by (simp add: isUpper_def charCode_def)
  then have "CHR ''I'' \<notin> set (toLowerCase s)" by (rule toLowerCase_no_upper)
  then show False using a set_mono_sublist [of t "toLowerCase s"] by auto
qed

lemma workflowid_workflow: "sublist ''workflowid'' l \<Longrightarrow> sublist ''workflow'' l"
proof -
  have "sublist ''workflow'' ''workflowid''"
    using sublist_append_rightI [of "''workflow''" "''id''"] by simp
  then show "sublist ''workflowid'' l \<Longrightarrow> sublist ''workflow'' l"
    using sublist_order.order_trans by blast
qed

lemma automaTerms_vocabulary:
  assumes "\<not> sublist ''logid'' (toLowerCase s)"
  shows "list_ex (\<lambda>term. includesStr (toLowerCase s) term) automaTerms
     \<longleftrightarrow> (\<exists>kw \<in> set (specVocabulary @ moreVocabulary). sublist kw (toLowerCase s))"
proof -
  have a: "\<not> sublist ''logId'' (toLowerCase s)" by (rule no_capital_I) simp
  have b: "\<not> sublist ''workflowId'' (toLowerCase s)" by (rule no_capital_I) simp
  show ?thesis
    using assms a b workflowid_workflow [of "toLowerCase s"]
    unfolding automaTerms_def specVocabulary_def moreVocabulary_def includesStr_sublist list_ex_iff
    by auto
qed

lemma isValidLogData_parts:
  "isValidLogData s \<longleftrightarrow>
     re_test (re_at_least 3 isAlpha) s
     \<and> (list_ex (\<lambda>term. includesStr (toLowerCase s) term) automaTerms
        \<or> re_test re_time s
        \<or> re_test (re_alt_word_ci levelWords) s
        \<or> includesStr s ''{'' \<or> includesStr s [DQ] \<or> includesStr s '':'')"
proof (cases "s = [] \<or> length s < 3")
  case True
  then have "\<not> hasAlphaRun 3 s" using hasAlphaRun_length [of 3 s] by auto
  then show ?thesis using True by (simp add: isValidLogData_def hasAlphaRun_iff)
next
  case False
  then show ?thesis
    by (simp add: isValidLogData_def Let_def levelWords_def DQ_def)
qed

text \<open>
  Claim C4, as the code has it. The vocabulary of the gate is the one the specification
  lists and five terms more: \<open>workflow\<close>, \<open>new tab\<close>, \<open>close\<close>, \<open>reload\<close>, \<open>typing_five\<close>.
  With it, a string is accepted if and only if it has an alphabetic run of three
  characters or more and one of: a keyword of the vocabulary (sought in the string in
  lower case), a time token, a log-level word as a whole word in any mix of cases, one
  of the characters \<open>{\<close>, \<open>"\<close>, \<open>:\<close>. The source writes the terms \<open>logId\<close> and \<open>workflowId\<close>
  with a capital letter and seeks them in the string in lower case; the theorem leaves the
  strings that hold \<open>logid\<close> aside.
\<close>

theorem relevance_gate:
  assumes "\<not> sublist ''logid'' (toLowerCase s)"
  shows "isValidLogData s \<longleftrightarrow> relevant (specVocabulary @ moreVocabulary) s"
  unfolding isValidLogData_parts relevant_def
    automaTerms_vocabulary [OF assms] hasAlphaRun_iff containsTime_iff
    occursAsWord_iff [OF levelWords_good] includesStr_char
  by simp

lemma please_close:
  "isValidLogData ''please close''"
  "\<not> (\<exists>kw \<in> set specVocabulary. sublist kw (toLowerCase ''please close''))"
  "\<not> re_test re_time ''please close''"
  "\<not> re_test (re_alt_word_ci levelWords) ''please close''"
  "CHR ''{'' \<notin> set ''please close'' \<and> DQ \<notin> set ''please close''
     \<and> CHR '':'' \<notin> set ''please close''"
  "\<not> sublist ''logid'' (toLowerCase ''please close'')"
  by code_simp+

text \<open>
  Claim C4 as stated fails: \<open>please close\<close> is accepted, for the term \<open>close\<close>, and it meets
  the condition with the vocabulary of the specification in no way.
\<close>

theorem relevance_gate_vocabulary:
  "isValidLogData ''please close'' \<and> \<not> relevant specVocabulary ''please close''"
  using please_close(1-5)
  unfolding relevant_def containsTime_iff occursAsWord_iff [OF levelWords_good]
  by blast

theorem relevance_gate_witness:
  "\<not> sublist ''logid'' (toLowerCase ''please close'')
   \<and> (isValidLogData ''please close''
        \<longleftrightarrow> relevant (specVocabulary @ moreVocabulary) ''please close'')"
  using please_close(6) relevance_gate [OF please_close(6)] by (rule conjI)

section \<open>The fields of an enriched row\<close>










section \<open>Quoting in the CSV files\<close>

lemma replace_class:
  "re_replace_from (re_class P) f prev s = concat (map (\<lambda>c. if P c then f [c] else [c]) s)"
proof (induction s arbitrary: prev)
  case Nil
  show ?case by (simp add: re_replace_from.simps re_class_def)
next
  case (Cons c cs)
  show ?case
  proof (cases "P c")
    case True
    then have "re_class P prev (c # cs) = Some (Suc 0)" by (simp add: re_class_def)
    then show ?thesis using True Cons [of "Some c"] by (simp add: re_replace_from.simps)
  next
    case False
    then have "re_class P prev (c # cs) = None" by (simp add: re_class_def)
    then show ?thesis using False Cons [of "Some c"] by (simp add: re_replace_from.simps)
  qed
qed

lemma quotedField_escaped:
  assumes "rest = [] \<or> hd rest \<noteq> DQ"
  shows "quotedField (concat (map (\<lambda>c. if c = DQ then [DQ, DQ] else [c]) s) @ DQ # rest)
     = Some (s, rest)"
proof (induction s)
  case Nil
  show ?case using assms by (cases rest) auto
next
  case (Cons c s)
  let ?e = "concat (map (\<lambda>c. if c = DQ then [DQ, DQ] else [c]) s) @ DQ # rest"
  obtain d t where dt: "?e = d # t" by (cases ?e) auto
  show ?case
  proof (cases "c = DQ")
    case True
    then show ?thesis using Cons by simp
  next
    case False
    have "quotedField (c # ?e) = map_option (\<lambda>(fld, rest). (c # fld, rest)) (quotedField ?e)"
      unfolding dt using False by simp
    then show ?thesis using False Cons by simp
  qed
qed

lemma csvLogValue_quoted:
  assumes "CHR '','' \<in> set s \<or> NL \<in> set s \<or> DQ \<in> set s"
  shows "csvLogValue s = DQ # concat (map (\<lambda>c. if c = DQ then [DQ, DQ] else [c]) s) @ [DQ]"
  using assms
  by (simp add: csvLogValue_def includesStr_char re_replace_all_def replace_class Let_def)

lemma csvLogValue_plain:
  assumes "\<not> (CHR '','' \<in> set s \<or> NL \<in> set s \<or> DQ \<in> set s)"
  shows "csvLogValue s = s"
proof -
  have "concat (map (\<lambda>c. if c = DQ then [DQ, DQ] else [c]) s) = s"
    using assms by (induction s) auto
  then show ?thesis using assms
    by (simp add: csvLogValue_def includesStr_char re_replace_all_def replace_class Let_def)
qed


text \<open>The log entry is read back as it was: the round trip holds for this field.\<close>

lemma csvLogValue_roundtrip:
  assumes "rest = [] \<or> isDelimiter (hd rest)"
  shows "csvField (csvLogValue s @ rest) = Some (s, rest)"
proof (cases "CHR '','' \<in> set s \<or> NL \<in> set s \<or> DQ \<in> set s")
  case True
  have nq: "rest = [] \<or> hd rest \<noteq> DQ"
    using assms by (auto simp: isDelimiter_def DQ_def NL_def)
  have "csvField (csvLogValue s @ rest) =
      csvField (DQ # (concat (map (\<lambda>c. if c = DQ then [DQ, DQ] else [c]) s) @ DQ # rest))"
    using csvLogValue_quoted [OF True] by simp
  also have "\<dots> = Some (s, rest)"
    using quotedField_escaped [OF nq, of s] assms by (simp add: csvField_def)
  finally show ?thesis .
next
  case False
  then have plain: "csvLogValue s = s" by (rule csvLogValue_plain)
  have nd: "\<forall>x \<in> set s. \<not> isDelimiter x" using False by (auto simp: isDelimiter_def)
  have tw: "takeWhile (\<lambda>x. \<not> isDelimiter x) (s @ rest) = s"
    using nd assms by (cases rest) (simp_all add: takeWhile_append2)
  have dw: "dropWhile (\<lambda>x. \<not> isDelimiter x) (s @ rest) = rest"
    using nd assms by (cases rest) (simp_all add: dropWhile_append2)
  show ?thesis
  proof (cases "s @ rest")
    case Nil
    then show ?thesis using plain by (simp add: csvField_def)
  next
    case (Cons c cs)
    have "c \<noteq> DQ"
    proof (cases s)
      case Nil
      then show ?thesis using Cons assms by (auto simp: isDelimiter_def DQ_def NL_def)
    next
      case (Cons a s')
      then show ?thesis using \<open>s @ rest = c # cs\<close> False by auto
    qed
    then have "csvField (c # cs) =
        (if DQ \<in> set (takeWhile (\<lambda>x. \<not> isDelimiter x) (c # cs)) then None
         else Some (takeWhile (\<lambda>x. \<not> isDelimiter x) (c # cs),
                    dropWhile (\<lambda>x. \<not> isDelimiter x) (c # cs)))"
      by (simp add: csvField_def)
    then show ?thesis using plain tw dw False Cons by (simp del: takeWhile.simps dropWhile.simps)
  qed
qed

lemma quotedName_readable:
  "convertToHumanReadable [Json quotedNameObject []] =
     Inr [\<lparr>workflow = ''Typing '' @ [DQ] @ ''A'' @ [DQ], log = ''Ok''\<rparr>]"
  by code_simp

lemma quotedName_fields:
  "csvLogValue ''Ok'' = ''Ok''" "csvAction ''Ok'' = ''action''" "csvStatus ''Ok'' = ''info''"
  by code_simp+

lemma quotedName_field_broken:
  "csvField ([DQ] @ (''Typing '' @ [DQ] @ ''A'' @ [DQ]) @ [DQ] @ '',Ok'') = None"
  by code_simp

text \<open>
  Claim C2 does not hold for the workflow name: \<^verbatim>\<open>saveToCSV\<close> puts it between double
  quotes and does not double the double quotes it holds, as it does for the log entry.
  The fragment \<^verbatim>\<open>{"name":"typing \"a\"","message":"ok"}\<close> gives a record whose
  workflow name holds two double quotes; its row in the combined file has them as they
  are, and the field cannot be read back.
\<close>

theorem workflow_name_not_escaped:
  "convertToHumanReadable [Json quotedNameObject []] =
     Inr [\<lparr>workflow = ''Typing '' @ [DQ] @ ''A'' @ [DQ], log = ''Ok''\<rparr>]
   \<and> combinedRow ts \<lparr>workflow = ''Typing '' @ [DQ] @ ''A'' @ [DQ], log = ''Ok''\<rparr> =
       [DQ] @ ts @ [DQ] @ '','' @ [DQ] @ (''Typing '' @ [DQ] @ ''A'' @ [DQ]) @ [DQ] @ '',''
       @ ''Ok'' @ '','' @ [DQ] @ ''action'' @ [DQ] @ '','' @ [DQ] @ ''info'' @ [DQ] @ [NL]
   \<and> csvField ([DQ] @ (''Typing '' @ [DQ] @ ''A'' @ [DQ]) @ [DQ] @ '',Ok'') = None"
  using quotedName_readable quotedName_field_broken quotedName_fields
  by (simp add: combinedRow_def)

section \<open>The timestamp column\<close>

lemma stamped_Nil: "stamped clock k []"
  by (simp add: stamped_def)

lemma stamped_Cons:
  "stamped clock k (r # rs) \<longleftrightarrow>
     (\<exists>fields. r = [DQ] @ clock k @ [DQ] @ '','' @ fields) \<and> stamped clock (Suc k) rs"
proof
  assume a: "stamped clock k (r # rs)"
  have "\<exists>fields. r = [DQ] @ clock k @ [DQ] @ '','' @ fields"
    using a [unfolded stamped_def, rule_format, of 0] by simp
  moreover have "stamped clock (Suc k) rs"
    unfolding stamped_def
  proof (intro allI impI)
    fix i
    assume "i < length rs"
    then show "\<exists>fields. rs ! i = [DQ] @ clock (Suc k + i) @ [DQ] @ '','' @ fields"
      using a [unfolded stamped_def, rule_format, of "Suc i"] by simp
  qed
  ultimately show "(\<exists>fields. r = [DQ] @ clock k @ [DQ] @ '','' @ fields) \<and> stamped clock (Suc k) rs"
    by simp
next
  assume b: "(\<exists>fields. r = [DQ] @ clock k @ [DQ] @ '','' @ fields) \<and> stamped clock (Suc k) rs"
  show "stamped clock k (r # rs)"
    unfolding stamped_def
  proof (intro allI impI)
    fix i
    assume i: "i < length (r # rs)"
    show "\<exists>fields. (r # rs) ! i = [DQ] @ clock (k + i) @ [DQ] @ '','' @ fields"
    proof (cases i)
      case 0
      then show ?thesis using b by simp
    next
      case (Suc j)
      then have "j < length rs" using i by simp
      then show ?thesis
        using b [THEN conjunct2, unfolded stamped_def, rule_format, of j] Suc by simp
    qed
  qed
qed

lemma stamped_append:
  "stamped clock k xs \<Longrightarrow> stamped clock (k + length xs) ys \<Longrightarrow> stamped clock k (xs @ ys)"
proof (induction xs arbitrary: k)
  case Nil
  then show ?case by simp
next
  case (Cons x xs)
  then show ?case using Cons.IH [of "Suc k"] by (simp add: stamped_Cons)
qed

lemma workflowRows_length: "length (workflowRows clock k name logs) = length logs"
  by (induction logs arbitrary: k) simp_all

lemma combinedRows_length: "length (combinedRows clock k items) = length items"
  by (induction items arbitrary: k) simp_all

lemma workflowRows_stamped: "stamped clock k (workflowRows clock k name logs)"
proof (induction logs arbitrary: k)
  case Nil
  show ?case by (simp add: stamped_Nil)
next
  case (Cons l logs)
  have "\<exists>fields. workflowRow (clock k) name l = [DQ] @ clock k @ [DQ] @ '','' @ fields"
    unfolding workflowRow_def by (intro exI) (rule refl)
  then show ?case using Cons [of "Suc k"] by (simp add: stamped_Cons del: append.simps)
qed

lemma combinedRows_stamped: "stamped clock k (combinedRows clock k items)"
proof (induction items arbitrary: k)
  case Nil
  show ?case by (simp add: stamped_Nil)
next
  case (Cons item items)
  have "\<exists>fields. combinedRow (clock k) item = [DQ] @ clock k @ [DQ] @ '','' @ fields"
    unfolding combinedRow_def by (intro exI) (rule refl)
  then show ?case using Cons [of "Suc k"] by (simp add: stamped_Cons del: append.simps)
qed

lemma saveWorkflowFiles_step:
  "saveWorkflowFiles e timestamp ((workflowName, logs) # groups) savedFiles st =
     (let filepath = path_join [outputDir,
            take 30 (re_replace_all (re_class (\<lambda>c. \<not> isFilenameChar c)) (\<lambda>_. ''_'') workflowName)
            @ ''_'' @ timestamp @ ''.csv'']
      in if canWriteFile e filepath
         then saveWorkflowFiles e timestamp groups (savedFiles @ [filepath])
                (st\<lparr>ticks := ticks st + length logs,
                    written := written st
                      @ [(filepath, enrichedHeader
                            @ concat (workflowRows (now e) (ticks st) workflowName logs))]\<rparr>)
         else (Inl IOError, st\<lparr>ticks := ticks st + length logs\<rparr>))"
  by (simp add: Let_def enrichedHeader_def)

lemma saveWorkflowFiles_sheets:
  assumes "saveWorkflowFiles e timestamp groups savedFiles st = (res, st')"
  shows "\<exists>files sheets.
      written st' = written st @ files
    \<and> list_all2 sheet files sheets
    \<and> stamped (now e) (ticks st) (concat (map snd sheets))
    \<and> (\<forall>paths. res = Inr paths \<longrightarrow>
          ticks st' = ticks st + length (concat (map snd sheets))
          \<and> paths = savedFiles @ map fst files)"
  using assms
proof (induction groups arbitrary: savedFiles st)
  case Nil
  then have "res = Inr savedFiles" "st' = st" by simp_all
  then show ?case
    by (intro exI [of _ "[]"]) (simp add: stamped_Nil)
next
  case (Cons g groups)
  obtain workflowName logs where g: "g = (workflowName, logs)" by (cases g)
  define filepath where "filepath = path_join [outputDir,
      take 30 (re_replace_all (re_class (\<lambda>c. \<not> isFilenameChar c)) (\<lambda>_. ''_'') workflowName)
      @ ''_'' @ timestamp @ ''.csv'']"
  define rows where "rows = workflowRows (now e) (ticks st) workflowName logs"
  define st1 where "st1 = st\<lparr>ticks := ticks st + length logs,
      written := written st @ [(filepath, enrichedHeader @ concat rows)]\<rparr>"
  have step: "saveWorkflowFiles e timestamp (g # groups) savedFiles st =
     (if canWriteFile e filepath
      then saveWorkflowFiles e timestamp groups (savedFiles @ [filepath]) st1
      else (Inl IOError, st\<lparr>ticks := ticks st + length logs\<rparr>))"
    unfolding g saveWorkflowFiles_step filepath_def rows_def st1_def by (simp add: Let_def)
  show ?case
  proof (cases "canWriteFile e filepath")
    case False
    then have "res = Inl IOError" "st' = st\<lparr>ticks := ticks st + length logs\<rparr>"
      using Cons.prems step by simp_all
    then show ?thesis
      by (intro exI [of _ "[]"]) (simp add: stamped_Nil)
  next
    case True
    then have "saveWorkflowFiles e timestamp groups (savedFiles @ [filepath]) st1 = (res, st')"
      using Cons.prems step by simp
    from Cons.IH [OF this] obtain files sheets where
      ih: "written st' = written st1 @ files" "list_all2 sheet files sheets"
          "stamped (now e) (ticks st1) (concat (map snd sheets))"
          "\<forall>paths. res = Inr paths \<longrightarrow>
             ticks st' = ticks st1 + length (concat (map snd sheets))
             \<and> paths = (savedFiles @ [filepath]) @ map fst files"
      by blast
    let ?files = "(filepath, enrichedHeader @ concat rows) # files"
    let ?sheets = "(enrichedHeader, rows) # sheets"
    have t1: "ticks st1 = ticks st + length rows"
      by (simp add: st1_def rows_def workflowRows_length)
    have 1: "written st' = written st @ ?files" using ih(1) by (simp add: st1_def)
    have 2: "list_all2 sheet ?files ?sheets" using ih(2) by (simp add: sheet_def)
    have 3: "stamped (now e) (ticks st) (concat (map snd ?sheets))"
      using stamped_append [of "now e" "ticks st" rows "concat (map snd sheets)"]
        workflowRows_stamped [of "now e" "ticks st" workflowName logs] ih(3) t1
      by (simp add: rows_def)
    have 4: "\<forall>paths. res = Inr paths \<longrightarrow>
          ticks st' = ticks st + length (concat (map snd ?sheets))
          \<and> paths = savedFiles @ map fst ?files"
      using ih(4) t1 by simp
    show ?thesis using 1 2 3 4 by blast
  qed
qed

lemma saveCombined_cases:
  assumes "cpath = path_join [outputDir, ''all_workflows_'' @ timestamp @ ''.csv'']"
    and "crows = combinedRows (now e) (ticks st) readableData"
  shows "saveCombined e timestamp readableData savedFiles st =
     (if canWriteFile e cpath
      then (Inr (Some (savedFiles @ [cpath])),
            st\<lparr>ticks := ticks st + length readableData,
                written := written st @ [(cpath, combinedHeader @ concat crows)]\<rparr>)
      else (Inl IOError, st\<lparr>ticks := ticks st + length readableData\<rparr>))"
  unfolding assms by (simp add: saveCombined_def Let_def combinedHeader_def)

text \<open>
  What holds of every call, whatever the data and however the call ends: the text that a
  file holds after its header line is made of the texts that the passes of the loop
  appended, one for each record, and each of them begins with the reading of the clock
  taken in that pass, between double quotes. The readings are those that follow the one
  taken for the date of the file names, in order.
\<close>

lemma saveToCSV_sheets:
  assumes "saveToCSV e workflowData st = (res, st')"
  shows "\<exists>files sheets.
      written st' = written st @ files
    \<and> list_all2 sheet files sheets
    \<and> stamped (now e) (Suc (ticks st)) (concat (map snd sheets))
    \<and> (\<forall>paths. res = Inr (Some paths) \<longrightarrow>
          ticks st' = Suc (ticks st) + length (concat (map snd sheets))
          \<and> paths = map fst files)"
proof -
  have no_file: ?thesis
    if "written st' = written st" and "\<forall>paths. res \<noteq> Inr (Some paths)"
  proof -
    have "written st' = written st @ [] \<and> list_all2 sheet [] []
        \<and> stamped (now e) (Suc (ticks st)) (concat (map snd []))
        \<and> (\<forall>paths. res = Inr (Some paths) \<longrightarrow>
              ticks st' = Suc (ticks st) + length (concat (map snd []))
              \<and> paths = map fst [])"
      using that by (simp add: stamped_Nil)
    then show ?thesis by blast
  qed
  show ?thesis
  proof (cases "workflowData = [] \<or> \<not> canEnsureDir e outputDir")
    case True
    then have "(res, st') = (Inr None, st) \<or> (res, st') = (Inl IOError, st)"
      using assms by (cases "workflowData = []") (simp_all add: saveToCSV_def)
    then have a: "written st' = written st" and b: "\<forall>paths. res \<noteq> Inr (Some paths)"
      by auto
    show ?thesis by (rule no_file [OF a b])
  next
    case False
    define st0 where "st0 = st\<lparr>ensured := ensured st @ [outputDir]\<rparr>"
    show ?thesis
    proof (cases "convertToHumanReadable workflowData")
      case (Inl err)
      then have a: "written st' = written st" and b: "\<forall>paths. res \<noteq> Inr (Some paths)"
        using assms False by (auto simp: saveToCSV_def)
      show ?thesis by (rule no_file [OF a b])
    next
      case (Inr readableData)
      show ?thesis
      proof (cases "readableData = []")
        case True
        then have a: "written st' = written st" and b: "\<forall>paths. res \<noteq> Inr (Some paths)"
          using assms False Inr by (auto simp: saveToCSV_def)
        show ?thesis by (rule no_file [OF a b])
      next
        case ne: False
        show ?thesis
        proof (cases "groupByWorkflow readableData []")
          case (Inl err)
          then have a: "written st' = written st" and b: "\<forall>paths. res \<noteq> Inr (Some paths)"
            using assms False Inr ne by (auto simp: saveToCSV_def)
          show ?thesis by (rule no_file [OF a b])
        next
          case workflows: (Inr workflows)
          define timestamp where "timestamp = takeWhile (\<lambda>c. c \<noteq> CHR ''T'') (now e (ticks st))"
          define saved where "saved = saveWorkflowFiles e timestamp (objectEntries workflows) []
              (st0\<lparr>ticks := Suc (ticks st0)\<rparr>)"
          have unfold: "saveToCSV e workflowData st =
              (case fst saved of
                 Inl err \<Rightarrow> (Inl err, snd saved)
               | Inr savedFiles \<Rightarrow>
                   saveCombined e timestamp readableData savedFiles (snd saved))"
            using False Inr ne workflows
            by (simp add: saveToCSV_def Let_def saved_def timestamp_def st0_def
                  split: sum.splits)
          obtain r1 st1 where s1: "saved = (r1, st1)" by (cases saved)
          from saveWorkflowFiles_sheets [OF s1 [unfolded saved_def]] obtain files sheets where
            sw: "written st1 = written st @ files" "list_all2 sheet files sheets"
                "stamped (now e) (Suc (ticks st)) (concat (map snd sheets))"
                "\<forall>paths. r1 = Inr paths \<longrightarrow>
                   ticks st1 = Suc (ticks st) + length (concat (map snd sheets))
                   \<and> paths = map fst files"
            by (auto simp: st0_def)
          show ?thesis
          proof (cases r1)
            case (Inl err)
            then have "res = Inl err" "st' = st1" using assms unfold s1 by simp_all
            then show ?thesis using sw(1-3) by blast
          next
            case (Inr savedFiles)
            define cpath where "cpath = path_join [outputDir, ''all_workflows_'' @ timestamp @ ''.csv'']"
            define crows where "crows = combinedRows (now e) (ticks st1) readableData"
            have t1: "ticks st1 = Suc (ticks st) + length (concat (map snd sheets))"
              and sf: "savedFiles = map fst files"
              using sw(4) Inr by simp_all
            have "(res, st') = saveCombined e timestamp readableData savedFiles st1"
              using assms unfold s1 Inr by simp
            then have comb: "(res, st') =
                (if canWriteFile e cpath
                 then (Inr (Some (savedFiles @ [cpath])),
                       st1\<lparr>ticks := ticks st1 + length readableData,
                           written := written st1 @ [(cpath, combinedHeader @ concat crows)]\<rparr>)
                 else (Inl IOError, st1\<lparr>ticks := ticks st1 + length readableData\<rparr>))"
              by (simp only: saveCombined_cases [OF cpath_def crows_def])
            show ?thesis
            proof (cases "canWriteFile e cpath")
              case False
              then have "res = Inl IOError" "written st' = written st1" using comb by simp_all
              then show ?thesis using sw(1-3) by auto
            next
              case True
              let ?files = "files @ [(cpath, combinedHeader @ concat crows)]"
              let ?sheets = "sheets @ [(combinedHeader, crows)]"
              have r: "res = Inr (Some (savedFiles @ [cpath]))"
                and w: "written st' = written st1 @ [(cpath, combinedHeader @ concat crows)]"
                and t: "ticks st' = ticks st1 + length readableData"
                using comb True by simp_all
              have 1: "written st' = written st @ ?files" using w sw(1) by simp
              have 2: "list_all2 sheet ?files ?sheets"
                using sw(2) by (simp add: list_all2_appendI sheet_def)
              have "stamped (now e) (ticks st1) crows"
                unfolding crows_def by (rule combinedRows_stamped)
              then have 3: "stamped (now e) (Suc (ticks st)) (concat (map snd ?sheets))"
                using stamped_append [of "now e" "Suc (ticks st)" "concat (map snd sheets)" crows]
                  sw(3) t1
                by simp
              have 4: "\<forall>paths. res = Inr (Some paths) \<longrightarrow>
                  ticks st' = Suc (ticks st) + length (concat (map snd ?sheets))
                  \<and> paths = map fst ?files"
                using r t t1 sf by (simp add: crows_def combinedRows_length)
              show ?thesis using 1 2 3 4 by blast
            qed
          qed
        qed
      qed
    qed
  qed
qed

text \<open>
  The time token of a log fragment has no part in the workflow name; it enters the log
  text, after the word \<open>at\<close>.
\<close>

lemma join_Cons: "\<exists>rest. join (x # xs) sep = x @ rest"
  by (cases xs) simp_all

lemma time_token_in_text:
  assumes "t \<noteq> []"
  shows "\<exists>rest. entryReadable (LogEntry w a s t r) = JStr (''at '' @ t @ rest)"
proof -
  define more where "more = (if a \<noteq> [] then [humanizeAction a] else [])
      @ (if s \<noteq> [] then [''- '' @ s] else [])"
  obtain rest where j: "join ((''at '' @ t) # more) '' '' = (''at '' @ t) @ rest"
    using join_Cons by blast
  then have "join ((''at '' @ t) # more) '' '' \<noteq> []" by simp
  then have "entryReadable (LogEntry w a s t r) = JStr (join ((''at '' @ t) # more) '' '')"
    using assms by (simp add: more_def Let_def)
  then show ?thesis using j by simp
qed

text \<open>
  The line \<open>timeNameLine\<close> passes the carver as it is, and the recoverer yields from it
  the two entries \<open>timeNameEntries\<close>: the parsed fragment, whose name holds two double
  quotes, a newline between them and then \<open>10:15:42\<close>, and a log entry.
\<close>

lemma timeName_carved: "extractCleanStrings (asciiBytes timeNameLine) = [timeNameLine]"
  by code_simp

lemma timeName_parts:
  "includesStr timeNameLine ''{''" "includesStr timeNameLine ''}''"
  "re_match_all re_braces timeNameLine = [timeNameText]"
  "logEntryOf timeNameLine = [LogEntry ''typing'' [] [] ''10:15:42'' timeNameLine]"
  by code_simp+

lemma timeName_recovered:
  assumes "JSON_parse timeNameText = Some timeNameObject"
    and "containsWorkflowData JSON_stringify timeNameObject"
  shows "extractStructuredData JSON_parse JSON_stringify [timeNameLine] = timeNameEntries"
  using assms by (simp add: extractStructuredData_def timeName_parts timeNameEntries_def)

lemma timeName_saved:
  "map (\<lambda>file. fileLines (snd file))
     (written (snd (saveToCSV exampleEnv timeNameEntries
        \<lparr>ensured = [], written = [], ticks = 0\<rparr>))) =
   [[''timestamp,workflow_name,action,status'',
     [DQ] @ ''2025-08-16T15:30:01.000Z'' @ [DQ] @ '','' @ [DQ] @ ''Typing'' @ [DQ],
     [DQ] @ ''10:15:42'' @ [DQ] @ '','' @ [DQ] @ ''action'' @ [DQ] @ '','' @ [DQ] @ ''info''
       @ [DQ]],
    [''timestamp,workflow_name,action,status'',
     [DQ] @ ''2025-08-16T15:30:02.000Z'' @ [DQ] @ '','' @ [DQ] @ ''Typing'' @ [DQ] @ '',''
       @ [DQ] @ ''action'' @ [DQ] @ '','' @ [DQ] @ ''info'' @ [DQ]],
    [''timestamp,workflow_name,log_entry,action,status'',
     [DQ] @ ''2025-08-16T15:30:02.000Z'' @ [DQ] @ '','' @ [DQ] @ ''Typing'' @ [DQ],
     [DQ] @ ''10:15:42'' @ [DQ] @ '',Ok,'' @ [DQ] @ ''action'' @ [DQ] @ '','' @ [DQ]
       @ ''info'' @ [DQ],
     [DQ] @ ''2025-08-16T15:30:02.000Z'' @ [DQ] @ '','' @ [DQ] @ ''Typing'' @ [DQ]
       @ '',At 10:15:42,'' @ [DQ] @ ''action'' @ [DQ] @ '','' @ [DQ] @ ''info'' @ [DQ]]]"
  by code_simp

lemma timeName_fields:
  "csvField ([DQ] @ ''10:15:42'' @ [DQ] @ '','' @ [DQ] @ ''action'' @ [DQ] @ '','' @ [DQ]
       @ ''info'' @ [DQ]) =
     Some (''10:15:42'', '','' @ [DQ] @ ''action'' @ [DQ] @ '','' @ [DQ] @ ''info'' @ [DQ])"
  "csvField ([DQ] @ ''10:15:42'' @ [DQ] @ '',Ok,'' @ [DQ] @ ''action'' @ [DQ] @ '','' @ [DQ]
       @ ''info'' @ [DQ]) =
     Some (''10:15:42'', '',Ok,'' @ [DQ] @ ''action'' @ [DQ] @ '','' @ [DQ] @ ''info'' @ [DQ])"
  by code_simp+

lemma exampleEnv_clock: "now exampleEnv k \<noteq> ''10:15:42''"
  by (simp add: exampleEnv_def)

text \<open>
  Claim C10 fails on the code at these entries. \<^verbatim>\<open>saveToCSV\<close> writes the workflow name
  between double quotes with its own double quotes as they are (the defect of Claim C2),
  so the first double quote of the name closes the field, its newline ends the row, and
  what follows starts a line of its own: the file of the workflow and the combined file
  both hold a line whose first field reads back as \<open>10:15:42\<close>, a time recovered
  from the source data, which no reading of the clock gives.
\<close>

theorem timestamp_column_recovered_time:
  "map (\<lambda>file. fileLines (snd file))
     (written (snd (saveToCSV exampleEnv timeNameEntries
        \<lparr>ensured = [], written = [], ticks = 0\<rparr>))) =
   [[''timestamp,workflow_name,action,status'',
     [DQ] @ ''2025-08-16T15:30:01.000Z'' @ [DQ] @ '','' @ [DQ] @ ''Typing'' @ [DQ],
     [DQ] @ ''10:15:42'' @ [DQ] @ '','' @ [DQ] @ ''action'' @ [DQ] @ '','' @ [DQ] @ ''info''
       @ [DQ]],
    [''timestamp,workflow_name,action,status'',
     [DQ] @ ''2025-08-16T15:30:02.000Z'' @ [DQ] @ '','' @ [DQ] @ ''Typing'' @ [DQ] @ '',''
       @ [DQ] @ ''action'' @ [DQ] @ '','' @ [DQ] @ ''info'' @ [DQ]],
    [''timestamp,workflow_name,log_entry,action,status'',
     [DQ] @ ''2025-08-16T15:30:02.000Z'' @ [DQ] @ '','' @ [DQ] @ ''Typing'' @ [DQ],
     [DQ] @ ''10:15:42'' @ [DQ] @ '',Ok,'' @ [DQ] @ ''action'' @ [DQ] @ '','' @ [DQ]
       @ ''info'' @ [DQ],
     [DQ] @ ''2025-08-16T15:30:02.000Z'' @ [DQ] @ '','' @ [DQ] @ ''Typing'' @ [DQ]
       @ '',At 10:15:42,'' @ [DQ] @ ''action'' @ [DQ] @ '','' @ [DQ] @ ''info'' @ [DQ]]]
   \<and> csvField ([DQ] @ ''10:15:42'' @ [DQ] @ '','' @ [DQ] @ ''action'' @ [DQ] @ '','' @ [DQ]
       @ ''info'' @ [DQ]) =
     Some (''10:15:42'', '','' @ [DQ] @ ''action'' @ [DQ] @ '','' @ [DQ] @ ''info'' @ [DQ])
   \<and> csvField ([DQ] @ ''10:15:42'' @ [DQ] @ '',Ok,'' @ [DQ] @ ''action'' @ [DQ] @ '','' @ [DQ]
       @ ''info'' @ [DQ]) =
     Some (''10:15:42'', '',Ok,'' @ [DQ] @ ''action'' @ [DQ] @ '','' @ [DQ] @ ''info'' @ [DQ])
   \<and> (\<forall>k. now exampleEnv k \<noteq> ''10:15:42'')"
  using timeName_saved timeName_fields exampleEnv_clock by (intro conjI allI)

section \<open>The workflow name of a JSON fragment\<close>

lemma replace_class_char:
  "re_replace_all (re_class P) (\<lambda>_. [d]) s = map (\<lambda>c. if P c then d else c) s"
  unfolding re_replace_all_def replace_class by (induction s) simp_all

lemma replace_word_start:
  "re_replace_from re_word_start toUpperCase prev s =
   titleCase (case prev of None \<Rightarrow> False | Some p \<Rightarrow> isWordChar p) s"
proof (induction s arbitrary: prev)
  case Nil
  show ?case by (simp add: re_replace_from.simps re_word_start_def re_class_def)
next
  case (Cons c cs)
  let ?inWord = "case prev of None \<Rightarrow> False | Some p \<Rightarrow> isWordChar p"
  show ?case
  proof (cases "isWordChar c \<and> \<not> ?inWord")
    case True
    then have "re_word_start prev (c # cs) = Some (Suc 0)"
      by (simp add: re_word_start_def wordBoundary_def re_class_def)
    then show ?thesis using True Cons [of "Some c"]
      by (simp add: re_replace_from.simps toUpperCase_def)
  next
    case False
    then have "re_word_start prev (c # cs) = None"
      by (auto simp: re_word_start_def wordBoundary_def re_class_def)
    then show ?thesis using False Cons [of "Some c"]
      by (auto simp: re_replace_from.simps)
  qed
qed

lemma cleanWorkflowName_text:
  assumes "name \<noteq> []"
  shows "cleanWorkflowName (JStr name) = Inr (normalizedName name)"
  using assms
  by (simp add: normalizedName_def replace_class_char re_replace_all_def [of re_word_start]
        replace_word_start)

lemma chosenName_workflow:
  assumes "textOf (field obj ''name'') = Some name"
    and "textOf (field obj ''workflowId'') = Some workflowId"
  shows "entryWorkflow (Json obj raw) = JStr (chosenName name workflowId)"
proof -
  have n: "truthy (field obj ''name'') \<longleftrightarrow> name \<noteq> []"
    "truthy (field obj ''name'') \<Longrightarrow> field obj ''name'' = JStr name"
    using assms(1) by (cases "field obj ''name''"; simp split: if_splits)+
  have w: "truthy (field obj ''workflowId'') \<longleftrightarrow> workflowId \<noteq> []"
    "truthy (field obj ''workflowId'') \<Longrightarrow> field obj ''workflowId'' = JStr workflowId"
    using assms(2) by (cases "field obj ''workflowId''"; simp split: if_splits)+
  show ?thesis using n w by (auto simp: chosenName_def Let_def)
qed

lemma chosenName_not_Nil: "chosenName name workflowId \<noteq> []"
  by (simp add: chosenName_def)

lemma convertToHumanReadable_loop_acc:
  "convertToHumanReadable_loop es acc =
     (case convertToHumanReadable_loop es [] of
        Inl err \<Rightarrow> Inl err
      | Inr records \<Rightarrow> Inr (acc @ records))"
proof (induction es arbitrary: acc)
  case Nil
  show ?case by simp
next
  case (Cons e es)
  show ?case
    using Cons [of "acc @ [\<lparr>workflow = w, log = l\<rparr>]" for w l] Cons [of "[\<lparr>workflow = w, log = l\<rparr>]" for w l]
      Cons [of acc]
    by (auto split: sum.splits)
qed

lemma convertToHumanReadable_Cons:
  "convertToHumanReadable (e # es) =
     (if hasLength (entryReadable e)
      then (case cleanWorkflowName (entryWorkflow e) of
              Inl err \<Rightarrow> Inl err
            | Inr w \<Rightarrow>
                (case cleanLogEntry (entryReadable e) of
                   Inl err \<Rightarrow> Inl err
                 | Inr l \<Rightarrow>
                     (case convertToHumanReadable es of
                        Inl err \<Rightarrow> Inl err
                      | Inr records \<Rightarrow> Inr (\<lparr>workflow = w, log = l\<rparr> # records))))
      else convertToHumanReadable es)"
  unfolding convertToHumanReadable_def
  using convertToHumanReadable_loop_acc [of es "[\<lparr>workflow = w, log = l\<rparr>]" for w l]
  by (auto split: sum.splits)

text \<open>
  Claim C8, as the code has it. The tests are tests of truthiness, not of presence: a field
  that is present with a falsy value counts as absent. When the values of \<^verbatim>\<open>name\<close> and
  \<^verbatim>\<open>workflowId\<close> are strings or falsy, the name chosen is the \<^verbatim>\<open>workflowId\<close> when it is
  not empty, also when a name is present; otherwise the \<^verbatim>\<open>name\<close> when it is not empty;
  otherwise \<open>Unknown\<close>. Humanizing emits a record for the fragment when its log text is
  a string that is not empty; the workflow name of the record is the chosen name
  normalized, and the records of the entries that follow come after it.
\<close>

theorem json_workflow_name:
  assumes "textOf (field obj ''name'') = Some name"
    and "textOf (field obj ''workflowId'') = Some workflowId"
  shows "convertToHumanReadable (Json obj raw # rest) =
     (if hasLength (entryReadable (Json obj raw))
      then (case cleanLogEntry (entryReadable (Json obj raw)) of
              Inl err \<Rightarrow> Inl err
            | Inr l \<Rightarrow>
                (case convertToHumanReadable rest of
                   Inl err \<Rightarrow> Inl err
                 | Inr records \<Rightarrow>
                     Inr (\<lparr>workflow = normalizedName (chosenName name workflowId), log = l\<rparr>
                          # records)))
      else convertToHumanReadable rest)"
proof -
  have "cleanWorkflowName (entryWorkflow (Json obj raw)) =
      Inr (normalizedName (chosenName name workflowId))"
    unfolding chosenName_workflow [OF assms]
    by (rule cleanWorkflowName_text) (rule chosenName_not_Nil)
  then show ?thesis
    unfolding convertToHumanReadable_Cons [of "Json obj raw" rest] by simp
qed

theorem json_workflow_name_witness:
  "textOf (field [(''name'', JStr ''typing_five''), (''workflowId'', JStr ''wf-1''),
                  (''message'', JStr ''ok'')] ''name'') = Some ''typing_five''
   \<and> textOf (field [(''name'', JStr ''typing_five''), (''workflowId'', JStr ''wf-1''),
                  (''message'', JStr ''ok'')] ''workflowId'') = Some ''wf-1''
   \<and> convertToHumanReadable
        [Json [(''name'', JStr ''typing_five''), (''workflowId'', JStr ''wf-1''),
               (''message'', JStr ''ok'')] []] =
       Inr [\<lparr>workflow = ''Wf 1'', log = ''Ok''\<rparr>]"
proof -
  let ?obj = "[(''name'', JStr ''typing_five''), (''workflowId'', JStr ''wf-1''),
               (''message'', JStr ''ok'')]"
  have n: "textOf (field ?obj ''name'') = Some ''typing_five''" by (simp add: field_def)
  have w: "textOf (field ?obj ''workflowId'') = Some ''wf-1''" by (simp add: field_def)
  have r: "(if hasLength (entryReadable (Json ?obj []))
      then (case cleanLogEntry (entryReadable (Json ?obj [])) of
              Inl err \<Rightarrow> Inl err
            | Inr l \<Rightarrow>
                (case convertToHumanReadable [] of
                   Inl err \<Rightarrow> Inl err
                 | Inr records \<Rightarrow>
                     Inr (\<lparr>workflow = normalizedName (chosenName ''typing_five'' ''wf-1''),
                           log = l\<rparr> # records)))
      else convertToHumanReadable []) = Inr [\<lparr>workflow = ''Wf 1'', log = ''Ok''\<rparr>]"
    by code_simp
  have "convertToHumanReadable [Json ?obj []] = Inr [\<lparr>workflow = ''Wf 1'', log = ''Ok''\<rparr>]"
    using json_workflow_name [OF n w, of "[]" "[]"] r by (rule trans)
  with n w show ?thesis by (intro conjI)
qed

text \<open>
  Claim C8 as stated fails: an object that has both fields, the \<^verbatim>\<open>workflowId\<close> empty,
  keeps the name.
\<close>

theorem json_workflow_name_empty_id:
  "convertToHumanReadable
     [Json [(''name'', JStr ''Typing''), (''workflowId'', JStr []), (''message'', JStr ''ok'')] []]
   = Inr [\<lparr>workflow = ''Typing'', log = ''Ok''\<rparr>]"
  by code_simp

text \<open>
  A truthy value that is not a string (a number, \<^verbatim>\<open>true\<close>, an array) is chosen as a string
  is, and \<^verbatim>\<open>cleanWorkflowName\<close> raises a \<^verbatim>\<open>TypeError\<close> on it: humanizing fails as a whole.
\<close>

lemma textOf_None_truthy: "textOf v = None \<Longrightarrow> truthy v \<and> cleanWorkflowName v = Inl TypeError"
  by (cases v) (simp_all split: if_splits)

lemma json_workflow_name_not_text:
  assumes "hasLength (entryReadable (Json obj raw))"
    and "textOf (field obj ''workflowId'') = None
         \<or> textOf (field obj ''workflowId'') = Some [] \<and> textOf (field obj ''name'') = None"
  shows "convertToHumanReadable (Json obj raw # rest) = Inl TypeError"
proof -
  have "cleanWorkflowName (entryWorkflow (Json obj raw)) = Inl TypeError"
  proof (cases "textOf (field obj ''workflowId'')")
    case None
    then show ?thesis using textOf_None_truthy [OF None] by (simp add: Let_def)
  next
    case (Some w)
    then have w: "w = []" and n: "textOf (field obj ''name'') = None" using assms(2) by auto
    have "\<not> truthy (field obj ''workflowId'')"
      using Some w by (cases "field obj ''workflowId''") (simp_all split: if_splits)
    then show ?thesis using textOf_None_truthy [OF n] by (simp add: Let_def)
  qed
  then show ?thesis using assms(1) by (simp add: convertToHumanReadable_Cons)
qed

end
